theory Spec2Isabelle
  imports Main "HOL-Library.Word" "HOL-Library.AList"
begin

section \<open>JavaScript strings\<close>

text \<open>
  A JavaScript string is a sequence of UTF-16 code units. The literals of the script are
  ASCII, written here through \<open>u16\<close>. The empty string is the only falsy string.
\<close>

type_synonym jsstring = "16 word list"

definition u16 :: "string \<Rightarrow> jsstring" where
  "u16 s = map (\<lambda>c. of_nat (of_char c)) s"

section \<open>The change log and the to-do list\<close>

text \<open>
  One entry of \<^verbatim>\<open>query.recentchanges\<close>, with the fields the loop of the script
  destructures. \<^verbatim>\<open>logparams\<close> is absent on entries that carry none; reading
  \<^verbatim>\<open>logparams.target_title\<close> then throws a TypeError.
\<close>

record log_params =
  target_title :: jsstring
  suppressredirect :: bool

record change =
  type :: jsstring
  title :: jsstring
  pageid :: nat
  minor :: bool
  logtype :: jsstring
  logaction :: jsstring
  logparams :: "log_params option"

text \<open>The value type of the \<^verbatim>\<open>pages\<close> map: \<^verbatim>\<open>{ oldTitle?: string, minor: boolean }\<close>.\<close>

record info =
  oldTitle :: "jsstring option"
  minor :: bool

datatype error = TypeError | APIError | TransportError

text \<open>
  A JavaScript \<^verbatim>\<open>Map\<close> iterates in insertion order: \<^verbatim>\<open>set\<close> on a present key
  replaces the value where it stands, on a new key appends; \<^verbatim>\<open>delete\<close> removes the
  entry. These are \<open>AList.update\<close> and \<open>AList.delete\<close> on an association list, and
  \<^verbatim>\<open>get\<close> is \<open>map_of\<close>. No object stored in \<^verbatim>\<open>pages\<close> is reachable from two keys
  once an iteration of the loop is over (the move branch re-keys the object and then
  deletes or overwrites the old key), so values are copied here.
\<close>

record todo =
  pages :: "(jsstring \<times> info) list"
  fileIds :: "(jsstring \<times> nat) list"

definition no_todo :: todo where
  "no_todo = \<lparr>pages = [], fileIds = []\<rparr>"

text \<open>The body of the loop over \<^verbatim>\<open>changes\<close>, one event.\<close>

definition reduce_change :: "todo \<Rightarrow> change \<Rightarrow> error + todo" where
  "reduce_change st c =
    (if type c = u16 ''new'' \<or> type c = u16 ''edit'' then
       (case map_of (pages st) (title c) of
          Some i \<Rightarrow>
            Inr (st\<lparr>pages := AList.update (title c)
                   (i\<lparr>minor := (minor i \<and> change.minor c)\<rparr>) (pages st)\<rparr>)
        | None \<Rightarrow>
            Inr (st\<lparr>pages := AList.update (title c)
                   \<lparr>oldTitle = None, minor = change.minor c\<rparr> (pages st)\<rparr>))
     else if type c = u16 ''log'' then
       (if logtype c = u16 ''delete'' \<and> logaction c = u16 ''delete'' then
          Inr (st\<lparr>pages := AList.delete (title c) (pages st)\<rparr>)
        else if logtype c = u16 ''move'' then
          (case logparams c of
             None \<Rightarrow> Inl TypeError
           | Some lp \<Rightarrow>
               (let i = (case map_of (pages st) (title c) of
                           Some i \<Rightarrow> i
                         | None \<Rightarrow> \<lparr>oldTitle = Some (title c), minor = True\<rparr>);
                    ps = AList.update (target_title lp) i (pages st)
                in Inr (st\<lparr>pages :=
                     (if suppressredirect lp then AList.delete (title c) ps
                      else AList.update (title c) \<lparr>oldTitle = None, minor = False\<rparr> ps)\<rparr>)))
        else if logtype c = u16 ''upload'' then Inr st
        else Inr st)
     else Inr st)"

text \<open>The loop: the events in order; an exception ends it.\<close>

fun reduce_changes :: "todo \<Rightarrow> change list \<Rightarrow> error + todo" where
  "reduce_changes st [] = Inr st"
| "reduce_changes st (c # cs) =
     (case reduce_change st c of
        Inl e \<Rightarrow> Inl e
      | Inr st' \<Rightarrow> reduce_changes st' cs)"

text \<open>
  The exclusion loops. Each deletes the entry it is visiting, which a \<^verbatim>\<open>Map\<close> iterator
  allows, so every entry is visited once. \<^verbatim>\<open>oldTitle && ...\<close> is false for an absent
  and for an empty \<^verbatim>\<open>oldTitle\<close>.
\<close>

definition is_excluded :: "jsstring set \<Rightarrow> jsstring \<times> info \<Rightarrow> bool" where
  "is_excluded excludedPages e =
    (case e of (newTitle, i) \<Rightarrow>
       newTitle \<in> excludedPages \<or>
       (case oldTitle i of
          None \<Rightarrow> False
        | Some old \<Rightarrow> old \<noteq> [] \<and> old \<in> excludedPages))"

definition remove_excluded :: "jsstring set \<Rightarrow> todo \<Rightarrow> todo" where
  "remove_excluded excludedPages st =
    \<lparr>pages = filter (\<lambda>e. \<not> is_excluded excludedPages e) (pages st),
     fileIds = filter (\<lambda>(t, _). t \<notin> excludedPages) (fileIds st)\<rparr>"

text \<open>
  \<^verbatim>\<open>moves\<close>: the entries with a non-empty \<^verbatim>\<open>oldTitle\<close> different from their key, as
  pairs \<^verbatim>\<open>[oldTitle, title]\<close>, in the order of the map.
\<close>

definition moves :: "(jsstring \<times> info) list \<Rightarrow> (jsstring \<times> jsstring) list" where
  "moves ps =
    List.map_filter
      (\<lambda>(t, i). case oldTitle i of
                   None \<Rightarrow> None
                 | Some old \<Rightarrow> if old \<noteq> [] \<and> t \<noteq> old then Some (old, t) else None)
      ps"

text \<open>\<^verbatim>\<open>[...pages.keys()]\<close>, the titles sent to the export and imported.\<close>

definition export_titles :: "(jsstring \<times> info) list \<Rightarrow> jsstring list" where
  "export_titles ps = map fst ps"

text \<open>Constructors for the events of the examples.\<close>

definition ev_page :: "string \<Rightarrow> string \<Rightarrow> bool \<Rightarrow> change" where
  "ev_page ty t m =
    \<lparr>type = u16 ty, title = u16 t, pageid = 0, minor = m,
     logtype = [], logaction = [], logparams = None\<rparr>"

definition ev_log :: "string \<Rightarrow> string \<Rightarrow> string \<Rightarrow> log_params option \<Rightarrow> change" where
  "ev_log lt la t lp =
    \<lparr>type = u16 ''log'', title = u16 t, pageid = 0, minor = False,
     logtype = u16 lt, logaction = u16 la, logparams = lp\<rparr>"

definition ev_move :: "string \<Rightarrow> string \<Rightarrow> bool \<Rightarrow> change" where
  "ev_move t t' s =
    ev_log ''move'' ''move'' t (Some \<lparr>target_title = u16 t', suppressredirect = s\<rparr>)"

section \<open>Kinds of events\<close>

text \<open>
  Predicates that name the branch of the loop an event takes, for a title \<open>t\<close>: a
  \<^verbatim>\<open>new\<close> or \<^verbatim>\<open>edit\<close> of \<open>t\<close>, a deletion of \<open>t\<close>, a move away from \<open>t\<close>, a move
  onto \<open>t\<close>. An event that \<open>rekeys\<close> \<open>t\<close> removes or replaces the entry of \<open>t\<close>.
\<close>

definition is_page_edit :: "jsstring \<Rightarrow> change \<Rightarrow> bool" where
  "is_page_edit t c \<longleftrightarrow> (type c = u16 ''new'' \<or> type c = u16 ''edit'') \<and> title c = t"

definition is_delete :: "jsstring \<Rightarrow> change \<Rightarrow> bool" where
  "is_delete t c \<longleftrightarrow>
     type c = u16 ''log'' \<and> logtype c = u16 ''delete'' \<and> logaction c = u16 ''delete'' \<and> title c = t"

definition is_move_from :: "jsstring \<Rightarrow> change \<Rightarrow> bool" where
  "is_move_from t c \<longleftrightarrow> type c = u16 ''log'' \<and> logtype c = u16 ''move'' \<and> title c = t"

definition is_move_to :: "jsstring \<Rightarrow> change \<Rightarrow> bool" where
  "is_move_to t c \<longleftrightarrow>
     type c = u16 ''log'' \<and> logtype c = u16 ''move'' \<and>
     (case logparams c of None \<Rightarrow> False | Some lp \<Rightarrow> target_title lp = t)"

definition rekeys :: "jsstring \<Rightarrow> change \<Rightarrow> bool" where
  "rekeys t c \<longleftrightarrow> is_delete t c \<or> is_move_from t c \<or> is_move_to t c"


section \<open>The export XML\<close>

text \<open>
  The script patches the export with two regular expressions. \<^verbatim>\<open>\s\<close> is the class of
  ECMAScript white space and line terminators; with the flag \<^verbatim>\<open>s\<close> the dot matches every
  code unit.
\<close>

definition is_space :: "16 word \<Rightarrow> bool" where
  "is_space c \<longleftrightarrow>
     c \<in> {0x9, 0xA, 0xB, 0xC, 0xD, 0x20, 0xA0, 0x1680, 0x2028, 0x2029, 0x202F, 0x205F,
          0x3000, 0xFEFF} \<or> (0x2000 \<le> c \<and> c \<le> 0x200A)"

definition starts_with :: "jsstring \<Rightarrow> jsstring \<Rightarrow> bool" where
  "starts_with pat s \<longleftrightarrow> take (length pat) s = pat"

text \<open>
  \<^verbatim>\<open>/\s*<minor\s*\/>/\<close> tried at the start of \<open>s\<close>; the result is what follows the match.
  A greedy \<^verbatim>\<open>\s*\<close> in front of a literal that starts with a character that is not white
  space never gives anything back, so \<open>dropWhile\<close> is the whole of its backtracking.
\<close>

definition match_minor :: "jsstring \<Rightarrow> jsstring option" where
  "match_minor s =
    (let s1 = dropWhile is_space s in
     if starts_with (u16 ''<minor'') s1 then
       (let s2 = dropWhile is_space (drop 6 s1) in
        if starts_with (u16 ''/>'') s2 then Some (drop 2 s2) else None)
     else None)"

text \<open>
  \<^verbatim>\<open>str.replace(/\s*<minor\s*\/>/, "")\<close>: the pattern has no flag \<^verbatim>\<open>g\<close>, so the leftmost
  match is cut out and nothing else.
\<close>

fun strip_minor :: "jsstring \<Rightarrow> jsstring" where
  "strip_minor [] = []"
| "strip_minor (c # cs) =
     (case match_minor (c # cs) of
        Some rest \<Rightarrow> rest
      | None \<Rightarrow> c # strip_minor cs)"

text \<open>
  \<^verbatim>\<open>/<title>\s*(.*?)\s*<\/title>.*?<\/revision>/gs\<close> tried at the start of a string.
  \<open>scan_title\<close> is \<^verbatim>\<open>(.*?)\s*<\/title>\<close>: the lazy group grows one code unit at a time
  until white space and \<^verbatim>\<open></title>\<close> follow; it returns the group and what follows
  \<^verbatim>\<open></title>\<close>. \<open>scan_revision\<close> is \<^verbatim>\<open>.*?<\/revision>\<close>. When no \<^verbatim>\<open></revision>\<close> follows
  the first \<^verbatim>\<open></title>\<close>, none follows a later one, so the match fails as a whole.
\<close>

fun scan_title :: "jsstring \<Rightarrow> (jsstring \<times> jsstring) option" where
  "scan_title [] = None"
| "scan_title (c # cs) =
     (if starts_with (u16 ''</title>'') (dropWhile is_space (c # cs))
      then Some ([], drop 8 (dropWhile is_space (c # cs)))
      else map_option (\<lambda>(t, r). (c # t, r)) (scan_title cs))"

fun scan_revision :: "jsstring \<Rightarrow> jsstring option" where
  "scan_revision [] = None"
| "scan_revision (c # cs) =
     (if starts_with (u16 ''</revision>'') (c # cs) then Some (drop 11 (c # cs))
      else scan_revision cs)"

definition match_block :: "jsstring \<Rightarrow> (jsstring \<times> jsstring) option" where
  "match_block s =
    (if starts_with (u16 ''<title>'') s then
       (case scan_title (dropWhile is_space (drop 7 s)) of
          None \<Rightarrow> None
        | Some (t, s2) \<Rightarrow>
            (case scan_revision s2 of
               None \<Rightarrow> None
             | Some rest \<Rightarrow> Some (t, rest)))
     else None)"

text \<open>
  \<^verbatim>\<open>xmlExport.replace(re, f)\<close> with the flag \<^verbatim>\<open>g\<close>: every match, from left to right and
  without overlap, is replaced by what \<open>f\<close> returns for the matched text and the group;
  the text between matches is copied.
\<close>

function replace_blocks :: "(jsstring \<Rightarrow> jsstring \<Rightarrow> jsstring) \<Rightarrow> jsstring \<Rightarrow> jsstring" where
  "replace_blocks f s =
    (case match_block s of
       Some (t, rest) \<Rightarrow> f (take (length s - length rest) s) t @ replace_blocks f rest
     | None \<Rightarrow> (case s of [] \<Rightarrow> [] | c # cs \<Rightarrow> c # replace_blocks f cs))"
  by pat_completeness auto
termination
proof (relation "measure (\<lambda>(f, s). length s)")
  show "wf (measure (\<lambda>(f :: jsstring \<Rightarrow> jsstring \<Rightarrow> jsstring, s :: jsstring). length s))"
    by simp
next
  fix f :: "jsstring \<Rightarrow> jsstring \<Rightarrow> jsstring" and s c cs
  assume "s = c # cs"
  then show "((f, cs), (f, s)) \<in> measure (\<lambda>(f, s). length s)"
    by simp
next
  fix f :: "jsstring \<Rightarrow> jsstring \<Rightarrow> jsstring" and s p t rest
  assume m: "match_block s = Some p" and p: "(t, rest) = p"
  have rev: "scan_revision u = Some r \<Longrightarrow> length r < length u" for u r
    by (induction u) (auto split: if_splits)
  have tit: "scan_title u = Some (v, r) \<Longrightarrow> length r \<le> length u" for u v r
  proof (induction u arbitrary: v)
    case Nil
    then show ?case by simp
  next
    case (Cons c cs)
    show ?case
    proof (cases "starts_with (u16 ''</title>'') (dropWhile is_space (c # cs))")
      case True
      with Cons.prems have "r = drop 8 (dropWhile is_space (c # cs))" by simp
      moreover have "length (dropWhile is_space (c # cs)) \<le> length (c # cs)"
        by (rule length_dropWhile_le)
      ultimately show ?thesis by simp
    next
      case False
      with Cons.prems obtain v' where "scan_title cs = Some (v', r)"
        by (auto split: if_splits)
      from Cons.IH [OF this] show ?thesis by simp
    qed
  qed
  from m p obtain s2 where t: "scan_title (dropWhile is_space (drop 7 s)) = Some (t, s2)"
    and r: "scan_revision s2 = Some rest"
    by (auto simp: match_block_def split: if_splits option.splits)
  have "length (dropWhile is_space (drop 7 s)) \<le> length (drop 7 s)"
    by (rule length_dropWhile_le)
  with tit [OF t] rev [OF r] have "length rest < length s" by simp
  then show "((f, rest), (f, s)) \<in> measure (\<lambda>(f, s). length s)"
    by simp
qed

declare replace_blocks.simps [simp del]

text \<open>
  The callback: \<^verbatim>\<open>pages.get(title)?.minor === false\<close> holds for a title with an entry whose
  flag is false; then the first marker of the matched text goes.
\<close>

definition unminor :: "(jsstring \<times> info) list \<Rightarrow> jsstring \<Rightarrow> jsstring \<Rightarrow> jsstring" where
  "unminor ps str t =
    (case map_of ps t of
       None \<Rightarrow> str
     | Some i \<Rightarrow> if \<not> minor i then strip_minor str else str)"

definition fix_export :: "(jsstring \<times> info) list \<Rightarrow> jsstring \<Rightarrow> jsstring" where
  "fix_export ps xml = replace_blocks (unminor ps) xml"

text \<open>\<open>occurs pat s\<close>: the string \<open>pat\<close> is found somewhere in \<open>s\<close>.\<close>

fun occurs :: "jsstring \<Rightarrow> jsstring \<Rightarrow> bool" where
  "occurs pat [] = starts_with pat []"
| "occurs pat (c # cs) = (starts_with pat (c # cs) \<or> occurs pat cs)"

section \<open>Requests, replies and the mock object\<close>

text \<open>
  The script talks to two wikis through \<^verbatim>\<open>api\<close>. A request is named by the call site that
  builds it, with the parts that vary: the continuation parameters of a list query, the
  titles of the export, the token and the titles of a move, the XML and the token of the
  import. The credentials and the fixed parameters are left out.
\<close>

datatype site = Source | Target

type_synonym params = "(jsstring \<times> jsstring) list"

datatype request =
    GetLoginToken site
  | PostLogin site "jsstring option"
  | ListCategoryMembers params
  | ListRecentChanges params
  | Export "jsstring list"
  | FileUrls "nat list"
  | GetCsrfToken
  | Move jsstring jsstring "jsstring option"
  | Import jsstring "jsstring option"

text \<open>
  The JSON body of a reply, with the fields the script reads; an absent field is \<open>None\<close>.
  \<open>errors\<close> and \<open>warnings\<close> are the lengths of the two arrays (0 when absent),
  \<open>continue\<close> is the object spread into the next request, \<open>imagepages\<close> is
  \<^verbatim>\<open>query.pages\<close> as pairs of a title and \<^verbatim>\<open>imageinfo[0].url\<close>. A field that is
  present has the type the API gives it.
\<close>

record token_set =
  logintoken :: "jsstring option"
  csrftoken :: "jsstring option"

record login_info =
  result :: jsstring
  lgusername :: "jsstring option"

record query_result =
  tokens :: "token_set option"
  categorymembers :: "jsstring list option"
  recentchanges :: "change list option"
  export :: "jsstring option"
  imagepages :: "(jsstring \<times> jsstring option) list option"

record response =
  errors :: nat
  warnings :: nat
  query :: "query_result option"
  continue :: "params option"
  curtimestamp :: "jsstring option"
  login :: "login_info option"

text \<open>
  What \<^verbatim>\<open>resp.data\<close> can be: \<^verbatim>\<open>null\<close>; a primitive, that is a string, number or
  boolean, given by its text (the text of a body that is not JSON, also of an empty or an
  HTML body, or a JSON value of these types); an object (an array is an object without
  the fields above). \<open>plain\<close> is the object without fields.
\<close>

datatype body = JNull | JPrimitive jsstring | JObject response

definition plain :: response where
  "plain = \<lparr>errors = 0, warnings = 0, query = None, continue = None, curtimestamp = None,
            login = None\<rparr>"

text \<open>
  Reading a property of a body: of \<^verbatim>\<open>null\<close> the read throws a TypeError, a primitive
  has none of the fields, an object has its own. Writing a property of \<^verbatim>\<open>null\<close> or of
  a primitive throws a TypeError, as the script is a module and so in strict mode.
\<close>

definition own_fields :: "body \<Rightarrow> error + response" where
  "own_fields b =
    (case b of
       JNull \<Rightarrow> Inl TypeError
     | JPrimitive s \<Rightarrow> Inr plain
     | JObject r \<Rightarrow> Inr r)"

text \<open>What \<^verbatim>\<open>ax(url, ...)\<close> gives: a rejection, or a response with its body.\<close>

datatype reply = Failed | Data body

text \<open>
  The state a run changes: the \<^verbatim>\<open>mock\<close> object (label to recorded body; it starts as the
  content of \<^verbatim>\<open>~mockfile.json\<close>, empty when there is no such file), the requests that
  went to the network, oldest first, and what the run has written to \<^verbatim>\<open>~lastsync\<close>.
  The network is a function \<open>net\<close>: the reply to the \<open>n\<close>-th request of the run. The
  model is of a run without \<^verbatim>\<open>SAVE_MOCK\<close> and \<^verbatim>\<open>REPL\<close> in the environment, as the
  workflow starts it, past the checks of the environment at the top of the script, and a
  write of a string to \<^verbatim>\<open>~lastsync\<close> succeeds.
\<close>

record world =
  mock :: "string \<Rightarrow> body option"
  sent :: "request list"
  lastsync :: "jsstring option"

text \<open>
  \<^verbatim>\<open>_mock\<close> is a label, \<^verbatim>\<open>""\<close>, \<^verbatim>\<open>false\<close> or absent: \<open>Some l\<close>, \<open>Some []\<close>, \<open>None\<close>.
  \<open>cached\<close> is the test \<^verbatim>\<open>typeof opt?._mock === "string" && Object.hasOwn(mock, opt._mock)\<close>
  with the value found; \<open>record_mock\<close> is \<^verbatim>\<open>if (opt?._mock) mock[opt._mock] = data\<close>.
\<close>

definition cached :: "string option \<Rightarrow> world \<Rightarrow> body option" where
  "cached label w = (case label of None \<Rightarrow> None | Some l \<Rightarrow> mock w l)"

definition record_mock :: "string option \<Rightarrow> body \<Rightarrow> world \<Rightarrow> world" where
  "record_mock label d w =
    (case label of
       None \<Rightarrow> w
     | Some l \<Rightarrow> if l \<noteq> [] then w\<lparr>mock := (mock w)(l \<mapsto> d)\<rparr> else w)"

text \<open>
  The test \<^verbatim>\<open>typeof data === "object"\<close> and what it guards: \<^verbatim>\<open>null\<close> passes the test
  and the read of \<^verbatim>\<open>data.errors\<close> throws; a primitive is not looked at; an object with
  a non-empty \<^verbatim>\<open>errors\<close> array is an \<^verbatim>\<open>APIError\<close>.
\<close>

definition check_errors :: "body \<Rightarrow> error + unit" where
  "check_errors d =
    (case d of
       JNull \<Rightarrow> Inl TypeError
     | JPrimitive s \<Rightarrow> Inr ()
     | JObject r \<Rightarrow> if errors r \<noteq> 0 then Inl APIError else Inr ())"

text \<open>
  \<^verbatim>\<open>api\<close>: a recorded body is returned as it is, unchecked and with no request. Otherwise
  the request goes out; a rejection is a transport error; then the test above; a body
  the assertion refuses is an \<^verbatim>\<open>APIError\<close>, and an assertion may itself throw. Every
  exception leaves \<^verbatim>\<open>api\<close> as a rejected promise.
\<close>

definition api ::
  "(nat \<Rightarrow> reply) \<Rightarrow> request \<Rightarrow> string option \<Rightarrow> (body \<Rightarrow> error + bool) option \<Rightarrow>
   world \<Rightarrow> (error + body) \<times> world" where
  "api net req label assertion w =
    (case cached label w of
       Some d \<Rightarrow> (Inr d, w)
     | None \<Rightarrow>
        (let w1 = w\<lparr>sent := sent w @ [req]\<rparr> in
         case net (length (sent w)) of
           Failed \<Rightarrow> (Inl TransportError, w1)
         | Data d \<Rightarrow>
             (case check_errors d of
                Inl e \<Rightarrow> (Inl e, w1)
              | Inr _ \<Rightarrow>
                  (case (case assertion of None \<Rightarrow> Inr True | Some a \<Rightarrow> a d) of
                     Inl e \<Rightarrow> (Inl e, w1)
                   | Inr False \<Rightarrow> (Inl APIError, w1)
                   | Inr True \<Rightarrow> (Inr d, record_mock label d w1)))))"

text \<open>
  The merge of a further page into \<^verbatim>\<open>results\<close>, key by key: onto an array the new
  entries are pushed, any other value is overwritten.
\<close>

definition merge_list :: "'a list option \<Rightarrow> 'a list option \<Rightarrow> 'a list option" where
  "merge_list cur v =
    (case v of
       None \<Rightarrow> cur
     | Some ys \<Rightarrow> (case cur of None \<Rightarrow> Some ys | Some xs \<Rightarrow> Some (xs @ ys)))"

definition merge_value :: "'a option \<Rightarrow> 'a option \<Rightarrow> 'a option" where
  "merge_value cur v = (case v of None \<Rightarrow> cur | Some y \<Rightarrow> Some y)"

definition merge_query :: "query_result \<Rightarrow> query_result \<Rightarrow> query_result" where
  "merge_query results q =
    \<lparr>tokens = merge_value (tokens results) (tokens q),
     categorymembers = merge_list (categorymembers results) (categorymembers q),
     recentchanges = merge_list (recentchanges results) (recentchanges q),
     export = merge_value (export results) (export q),
     imagepages = merge_list (imagepages results) (imagepages q)\<rparr>"

text \<open>
  \<^verbatim>\<open>...data?.continue\<close>: nothing while \<^verbatim>\<open>data\<close> is undefined, and nothing from a body
  that has no \<^verbatim>\<open>continue\<close>.
\<close>

definition continue_params :: "body option \<Rightarrow> params" where
  "continue_params data =
    (case data of
       Some (JObject r) \<Rightarrow> (case continue r of None \<Rightarrow> [] | Some c \<Rightarrow> c)
     | _ \<Rightarrow> [])"

definition has_continue :: "response \<Rightarrow> bool" where
  "has_continue d =
    (case continue d of None \<Rightarrow> False | Some c \<Rightarrow> map_of c (u16 ''continue'') \<noteq> None)"

text \<open>
  The \<^verbatim>\<open>do ... while\<close> loop of \<^verbatim>\<open>apiQueryListAll\<close>, from the state \<^verbatim>\<open>data\<close>,
  \<^verbatim>\<open>results\<close>. The test \<^verbatim>\<open>!data.query\<close> reads a property of the body, so it throws
  for \<^verbatim>\<open>null\<close> and breaks for a primitive. The loop has no bound, so the function is
  partial: \<open>None\<close> is a loop that does not come back. The label goes to \<^verbatim>\<open>api\<close> with
  every page; once a page is recorded under it, the next call of \<^verbatim>\<open>api\<close> finds that
  page again. In Node such a loop ends when the arrays it grows exhaust the memory; it
  never returns a value.
\<close>

partial_function (option) query_pages ::
  "(nat \<Rightarrow> reply) \<Rightarrow> (params \<Rightarrow> request) \<Rightarrow> string option \<Rightarrow> body option \<Rightarrow>
   query_result option \<Rightarrow> world \<Rightarrow>
   ((error + body \<times> query_result option) \<times> world) option" where
  "query_pages net req label data results w =
    (case api net (req (continue_params data)) label None w of
       (Inl e, w') \<Rightarrow> Some (Inl e, w')
     | (Inr d, w') \<Rightarrow>
         (case own_fields d of
            Inl e \<Rightarrow> Some (Inl e, w')
          | Inr r \<Rightarrow>
              (case query r of
                 None \<Rightarrow> Some (Inr (d, results), w')
               | Some q \<Rightarrow>
                   (let results' = (case results of None \<Rightarrow> q | Some rs \<Rightarrow> merge_query rs q) in
                    if has_continue r then query_pages net req label (Some d) (Some results') w'
                    else Some (Inr (d, Some results'), w')))))"

declare query_pages.simps [code]

text \<open>
  \<^verbatim>\<open>apiQueryListAll\<close>: the loop, then \<^verbatim>\<open>data.query = results\<close> and the recording. The
  assignment throws a TypeError when the last body is a primitive, which the loop has
  left by its \<^verbatim>\<open>break\<close>. When no page had a \<^verbatim>\<open>query\<close>, \<^verbatim>\<open>results\<close> is still
  undefined and the assignment leaves \<^verbatim>\<open>query\<close> undefined.
\<close>

definition apiQueryListAll ::
  "(nat \<Rightarrow> reply) \<Rightarrow> (params \<Rightarrow> request) \<Rightarrow> string option \<Rightarrow> world \<Rightarrow>
   ((error + body) \<times> world) option" where
  "apiQueryListAll net req label w =
    (case query_pages net req label None None w of
       None \<Rightarrow> None
     | Some (Inl e, w') \<Rightarrow> Some (Inl e, w')
     | Some (Inr (d, results), w') \<Rightarrow>
         (case d of
            JObject r \<Rightarrow>
              Some (Inr (JObject (r\<lparr>query := results\<rparr>)),
                    record_mock label (JObject (r\<lparr>query := results\<rparr>)) w')
          | _ \<Rightarrow> Some (Inl TypeError, w')))"

text \<open>
  \<^verbatim>\<open>apiLogin\<close>. Its last argument is a boolean at both calls, so the test
  \<^verbatim>\<open>_mock === ""\<close> of its first line is false; \<^verbatim>\<open>_mock && "login"\<close> is the label or
  \<^verbatim>\<open>false\<close>. Destructuring an absent \<^verbatim>\<open>query\<close>, \<^verbatim>\<open>tokens\<close> or \<^verbatim>\<open>login\<close> throws.
\<close>

definition login_ok :: "body \<Rightarrow> error + bool" where
  "login_ok d =
    (case own_fields d of
       Inl e \<Rightarrow> Inl e
     | Inr r \<Rightarrow>
         (case login r of
            None \<Rightarrow> Inl TypeError
          | Some l \<Rightarrow> Inr (result l = u16 ''Success'')))"

definition mock_label :: "bool \<Rightarrow> string \<Rightarrow> string option" where
  "mock_label m l = (if m then Some l else None)"

definition apiLogin ::
  "(nat \<Rightarrow> reply) \<Rightarrow> site \<Rightarrow> bool \<Rightarrow> world \<Rightarrow> (error + body) \<times> world" where
  "apiLogin net s m w =
    (case api net (GetLoginToken s) (mock_label m ''logintoken'') None w of
       (Inl e, w1) \<Rightarrow> (Inl e, w1)
     | (Inr d, w1) \<Rightarrow>
         (case own_fields d of
            Inl e \<Rightarrow> (Inl e, w1)
          | Inr r \<Rightarrow>
              (case query r of
                 None \<Rightarrow> (Inl TypeError, w1)
               | Some q \<Rightarrow>
                   (case tokens q of
                      None \<Rightarrow> (Inl TypeError, w1)
                    | Some tk \<Rightarrow>
                        api net (PostLogin s (logintoken tk)) (mock_label m ''login'')
                          (Some login_ok) w1))))"

section \<open>The run\<close>

text \<open>The steps of the script, in its order, each with the destructuring of its result.\<close>

definition log_in :: "(nat \<Rightarrow> reply) \<Rightarrow> site \<Rightarrow> bool \<Rightarrow> world \<Rightarrow> (error + unit) \<times> world" where
  "log_in net s m w =
    (case apiLogin net s m w of
       (Inl e, w1) \<Rightarrow> (Inl e, w1)
     | (Inr d, w1) \<Rightarrow>
         (case own_fields d of
            Inl e \<Rightarrow> (Inl e, w1)
          | Inr r \<Rightarrow>
              (case login r of
                 None \<Rightarrow> (Inl TypeError, w1)
               | Some l \<Rightarrow> (Inr (), w1))))"

definition fetch_excluded ::
  "(nat \<Rightarrow> reply) \<Rightarrow> world \<Rightarrow> ((error + jsstring set) \<times> world) option" where
  "fetch_excluded net w =
    (case apiQueryListAll net ListCategoryMembers (Some ''excludedpages'') w of
       None \<Rightarrow> None
     | Some (Inl e, w1) \<Rightarrow> Some (Inl e, w1)
     | Some (Inr d, w1) \<Rightarrow>
         (case own_fields d of
            Inl e \<Rightarrow> Some (Inl e, w1)
          | Inr r \<Rightarrow>
              (case query r of
                 None \<Rightarrow> Some (Inl TypeError, w1)
               | Some q \<Rightarrow>
                   (case categorymembers q of
                      None \<Rightarrow> Some (Inl TypeError, w1)
                    | Some ms \<Rightarrow> Some (Inr (set ms), w1)))))"

definition fetch_changes ::
  "(nat \<Rightarrow> reply) \<Rightarrow> world \<Rightarrow> ((error + change list \<times> jsstring option) \<times> world) option" where
  "fetch_changes net w =
    (case apiQueryListAll net ListRecentChanges (Some ''recentchanges'') w of
       None \<Rightarrow> None
     | Some (Inl e, w1) \<Rightarrow> Some (Inl e, w1)
     | Some (Inr d, w1) \<Rightarrow>
         (case own_fields d of
            Inl e \<Rightarrow> Some (Inl e, w1)
          | Inr r \<Rightarrow>
              (case query r of
                 None \<Rightarrow> Some (Inl TypeError, w1)
               | Some q \<Rightarrow>
                   (case recentchanges q of
                      None \<Rightarrow> Some (Inl TypeError, w1)
                    | Some changes \<Rightarrow> Some (Inr (changes, curtimestamp r), w1)))))"

text \<open>
  \<^verbatim>\<open>writeFile("~lastsync", syncTime)\<close>: an absent \<^verbatim>\<open>syncTime\<close> is refused with a
  TypeError and nothing is written.
\<close>

definition writeFile :: "jsstring option \<Rightarrow> world \<Rightarrow> (error + unit) \<times> world" where
  "writeFile syncTime w =
    (case syncTime of
       None \<Rightarrow> (Inl TypeError, w)
     | Some ts \<Rightarrow> (Inr (), w\<lparr>lastsync := Some ts\<rparr>))"

definition export_pages ::
  "(nat \<Rightarrow> reply) \<Rightarrow> (jsstring \<times> info) list \<Rightarrow> world \<Rightarrow> (error + jsstring) \<times> world" where
  "export_pages net ps w =
    (if ps \<noteq> [] then
       (case api net (Export (export_titles ps)) (Some ''export'') None w of
          (Inl e, w1) \<Rightarrow> (Inl e, w1)
        | (Inr d, w1) \<Rightarrow>
            (case own_fields d of
               Inl e \<Rightarrow> (Inl e, w1)
             | Inr r \<Rightarrow>
                 (case query r of
                    None \<Rightarrow> (Inl TypeError, w1)
                  | Some q \<Rightarrow>
                      (case export q of
                         None \<Rightarrow> (Inl TypeError, w1)
                       | Some xml \<Rightarrow> (Inr (fix_export ps xml), w1)))))
     else (Inr [], w))"

definition fetch_file_urls ::
  "(nat \<Rightarrow> reply) \<Rightarrow> (jsstring \<times> nat) list \<Rightarrow> world \<Rightarrow> (error + unit) \<times> world" where
  "fetch_file_urls net fs w =
    (if fs \<noteq> [] then
       (case api net (FileUrls (map snd fs)) (Some ''fileurls'') None w of
          (Inl e, w1) \<Rightarrow> (Inl e, w1)
        | (Inr d, w1) \<Rightarrow>
            (case own_fields d of
               Inl e \<Rightarrow> (Inl e, w1)
             | Inr r \<Rightarrow>
                 (case query r of
                    None \<Rightarrow> (Inl TypeError, w1)
                  | Some q \<Rightarrow>
                      (case imagepages q of
                         None \<Rightarrow> (Inl TypeError, w1)
                       | Some ips \<Rightarrow>
                           if list_all (\<lambda>(t, url). url \<noteq> None) ips then (Inr (), w1)
                           else (Inl TypeError, w1)))))
     else (Inr (), w))"

definition fetch_csrf :: "(nat \<Rightarrow> reply) \<Rightarrow> world \<Rightarrow> (error + jsstring option) \<times> world" where
  "fetch_csrf net w =
    (case api net GetCsrfToken None None w of
       (Inl e, w1) \<Rightarrow> (Inl e, w1)
     | (Inr d, w1) \<Rightarrow>
         (case own_fields d of
            Inl e \<Rightarrow> (Inl e, w1)
          | Inr r \<Rightarrow>
              (case query r of
                 None \<Rightarrow> (Inl TypeError, w1)
               | Some q \<Rightarrow>
                   (case tokens q of
                      None \<Rightarrow> (Inl TypeError, w1)
                    | Some tk \<Rightarrow> (Inr (csrftoken tk), w1)))))"

text \<open>
  The move loop: \<^verbatim>\<open>await api(...).catch(console.error)\<close>, so whatever a move request
  ends in, the loop goes on with the next pair.
\<close>

fun move_pages ::
  "(nat \<Rightarrow> reply) \<Rightarrow> jsstring option \<Rightarrow> (jsstring \<times> jsstring) list \<Rightarrow> world \<Rightarrow> world" where
  "move_pages net token [] w = w"
| "move_pages net token ((from, to) # ms) w =
     move_pages net token ms (snd (api net (Move from to token) (Some '''') None w))"

definition import_pages ::
  "(nat \<Rightarrow> reply) \<Rightarrow> jsstring option \<Rightarrow> jsstring \<Rightarrow> world \<Rightarrow> (error + unit) \<times> world" where
  "import_pages net token xml w =
    (if xml \<noteq> [] then
       (case api net (Import xml token) (Some '''') None w of
          (Inl e, w1) \<Rightarrow> (Inl e, w1)
        | (Inr d, w1) \<Rightarrow> (Inr (), w1))
     else (Inr (), w))"

text \<open>
  From the login to the target to the end of the script. The last write is inside
  \<^verbatim>\<open>Promise.allSettled\<close>: a refused write is not an error of the run.
\<close>

definition sync_target ::
  "(nat \<Rightarrow> reply) \<Rightarrow> (jsstring \<times> jsstring) list \<Rightarrow> jsstring \<Rightarrow> jsstring option \<Rightarrow> world \<Rightarrow>
   (error + unit) \<times> world" where
  "sync_target net ms xml syncTime w =
    (case log_in net Target (mock w '''' \<noteq> None) w of
       (Inl e, w1) \<Rightarrow> (Inl e, w1)
     | (Inr _, w1) \<Rightarrow>
         (case fetch_csrf net w1 of
            (Inl e, w2) \<Rightarrow> (Inl e, w2)
          | (Inr token, w2) \<Rightarrow>
              (case import_pages net token xml (move_pages net token ms w2) of
                 (Inl e, w3) \<Rightarrow> (Inl e, w3)
               | (Inr _, w3) \<Rightarrow> (Inr (), snd (writeFile syncTime w3)))))"

text \<open>
  From the change log in hand to the end: the reduction, the exclusion filter, the exit
  when there is nothing to do, the export, the file urls, the target.
\<close>

definition sync_pages ::
  "(nat \<Rightarrow> reply) \<Rightarrow> jsstring set \<Rightarrow> change list \<Rightarrow> jsstring option \<Rightarrow> world \<Rightarrow>
   (error + unit) \<times> world" where
  "sync_pages net excludedPages changes syncTime w =
    (case reduce_changes no_todo changes of
       Inl e \<Rightarrow> (Inl e, w)
     | Inr st0 \<Rightarrow>
         (let st = remove_excluded excludedPages st0 in
          if pages st = [] \<and> fileIds st = [] then writeFile syncTime w
          else
            (case export_pages net (pages st) w of
               (Inl e, w4) \<Rightarrow> (Inl e, w4)
             | (Inr xml, w4) \<Rightarrow>
                 (case fetch_file_urls net (fileIds st) w4 of
                    (Inl e, w5) \<Rightarrow> (Inl e, w5)
                  | (Inr _, w5) \<Rightarrow> sync_target net (moves (pages st)) xml syncTime w5))))"

text \<open>
  The configuration: whether both source credentials are set, and whether
  \<^verbatim>\<open>MOCK_LOGIN\<close> is. The script as a whole: \<open>None\<close> when a list query does not come
  back, otherwise the error that ended the run or \<open>Inr ()\<close>, with the final state.
\<close>

record config =
  sourceCredentials :: bool
  mockLogin :: bool

definition run :: "config \<Rightarrow> (nat \<Rightarrow> reply) \<Rightarrow> world \<Rightarrow> ((error + unit) \<times> world) option" where
  "run cfg net w =
    (case (if sourceCredentials cfg then log_in net Source (mockLogin cfg) w else (Inr (), w)) of
       (Inl e, w1) \<Rightarrow> Some (Inl e, w1)
     | (Inr _, w1) \<Rightarrow>
         (case fetch_excluded net w1 of
            None \<Rightarrow> None
          | Some (Inl e, w2) \<Rightarrow> Some (Inl e, w2)
          | Some (Inr excludedPages, w2) \<Rightarrow>
              (case fetch_changes net w2 of
                 None \<Rightarrow> None
               | Some (Inl e, w3) \<Rightarrow> Some (Inl e, w3)
               | Some (Inr (changes, syncTime), w3) \<Rightarrow>
                   Some (sync_pages net excludedPages changes syncTime w3))))"

text \<open>A run that starts with no mock file, and a query object to build replies from.\<close>

definition fresh :: world where
  "fresh = \<lparr>mock = (\<lambda>_. None), sent = [], lastsync = None\<rparr>"

definition no_query :: query_result where
  "no_query = \<lparr>tokens = None, categorymembers = None, recentchanges = None, export = None,
               imagepages = None\<rparr>"

text \<open>
  Networks for the examples. \<open>example_net\<close>: no excluded page; two moves in the change
  log, with the time of the server; the export; the login to the target; the token; an
  API error for the first move; empty bodies from then on. \<open>example_sent\<close> is what a run
  sends to it. \<open>target_net\<close> is the same from the login to the target on,
  \<open>failing_net\<close> answers the import with an API error, and \<open>idle_net\<close> has an empty
  change log. \<open>plain_net\<close> answers every request with the object without fields,
  \<open>blank_net\<close> with an empty body, which is the empty string.
\<close>

definition example_net :: "nat \<Rightarrow> reply" where
  "example_net n =
    (if n = 0 then
       Data (JObject (plain\<lparr>query := Some (no_query\<lparr>categorymembers := Some []\<rparr>)\<rparr>))
     else if n = 1 then
       Data (JObject (plain\<lparr>query := Some (no_query\<lparr>recentchanges :=
               Some [ev_move ''A'' ''B'' True, ev_move ''C'' ''D'' True]\<rparr>),
             curtimestamp := Some (u16 ''2024-01-01T00:00:00Z'')\<rparr>))
     else if n = 2 then
       Data (JObject (plain\<lparr>query := Some (no_query\<lparr>export := Some (u16 ''<x/>'')\<rparr>)\<rparr>))
     else if n = 3 then
       Data (JObject (plain\<lparr>query := Some (no_query\<lparr>tokens :=
               Some \<lparr>logintoken = Some (u16 ''l''), csrftoken = None\<rparr>\<rparr>)\<rparr>))
     else if n = 4 then
       Data (JObject (plain\<lparr>login :=
               Some \<lparr>result = u16 ''Success'', lgusername = Some (u16 ''Bot'')\<rparr>\<rparr>))
     else if n = 5 then
       Data (JObject (plain\<lparr>query := Some (no_query\<lparr>tokens :=
               Some \<lparr>logintoken = None, csrftoken = Some (u16 ''c'')\<rparr>\<rparr>)\<rparr>))
     else if n = 6 then Data (JObject (plain\<lparr>errors := 1\<rparr>))
     else Data (JObject plain))"

definition example_sent :: "request list" where
  "example_sent =
    [ListCategoryMembers [], ListRecentChanges [], Export [u16 ''B'', u16 ''D''],
     GetLoginToken Target, PostLogin Target (Some (u16 ''l'')), GetCsrfToken,
     Move (u16 ''A'') (u16 ''B'') (Some (u16 ''c'')),
     Move (u16 ''C'') (u16 ''D'') (Some (u16 ''c'')),
     Import (u16 ''<x/>'') (Some (u16 ''c''))]"

definition target_net :: "nat \<Rightarrow> reply" where
  "target_net n = example_net (n + 3)"

definition idle_net :: "nat \<Rightarrow> reply" where
  "idle_net n =
    (if n = 0 then
       Data (JObject (plain\<lparr>query := Some (no_query\<lparr>categorymembers := Some []\<rparr>)\<rparr>))
     else Data (JObject (plain\<lparr>query := Some (no_query\<lparr>recentchanges := Some []\<rparr>),
                curtimestamp := Some (u16 ''2024-01-02T00:00:00Z'')\<rparr>)))"

definition plain_net :: "nat \<Rightarrow> reply" where
  "plain_net n = Data (JObject plain)"

definition blank_net :: "nat \<Rightarrow> reply" where
  "blank_net n = Data (JPrimitive [])"

definition failing_net :: "nat \<Rightarrow> reply" where
  "failing_net n =
    (if n = 8 then Data (JObject (plain\<lparr>errors := 1\<rparr>)) else example_net n)"

section \<open>What a run sends\<close>

text \<open>
  Kinds of requests, and the replies that make \<^verbatim>\<open>api\<close> throw an \<^verbatim>\<open>APIError\<close>: an
  object with a non-empty \<^verbatim>\<open>errors\<close> array, or, for the login, with a result other
  than \<^verbatim>\<open>Success\<close>.
\<close>

definition is_changes_request :: "request \<Rightarrow> bool" where
  "is_changes_request rq = (case rq of ListRecentChanges c \<Rightarrow> True | _ \<Rightarrow> False)"

definition is_move_request :: "request \<Rightarrow> bool" where
  "is_move_request rq = (case rq of Move f t k \<Rightarrow> True | _ \<Rightarrow> False)"

definition is_login_request :: "request \<Rightarrow> bool" where
  "is_login_request rq = (case rq of PostLogin s k \<Rightarrow> True | _ \<Rightarrow> False)"

definition api_error :: "request \<Rightarrow> reply \<Rightarrow> bool" where
  "api_error rq r =
    (case r of
       Data (JObject d) \<Rightarrow>
         errors d \<noteq> 0 \<or>
         (is_login_request rq \<and>
          (case login d of None \<Rightarrow> False | Some l \<Rightarrow> result l \<noteq> u16 ''Success''))
     | _ \<Rightarrow> False)"

text \<open>
  Two invariants of a step that takes the state \<open>w\<close> to \<open>w'\<close> with the result \<open>r\<close>.
  \<open>fatal_ok\<close>: the step only adds requests, and an API error in the reply to one of them
  that is not a move makes that request the last and \<open>r\<close> the \<^verbatim>\<open>APIError\<close>. \<open>quiet\<close>:
  the step only adds requests, none for the change log, and leaves the recorded change
  log and \<^verbatim>\<open>~lastsync\<close> alone.
\<close>

definition fatal_ok :: "(nat \<Rightarrow> reply) \<Rightarrow> world \<Rightarrow> error + 'a \<Rightarrow> world \<Rightarrow> bool" where
  "fatal_ok net w r w' \<longleftrightarrow>
     take (length (sent w)) (sent w') = sent w \<and>
     (\<forall>n. length (sent w) \<le> n \<and> n < length (sent w') \<and>
          \<not> is_move_request (sent w' ! n) \<and> api_error (sent w' ! n) (net n)
          \<longrightarrow> r = Inl APIError \<and> Suc n = length (sent w'))"

definition quiet :: "world \<Rightarrow> world \<Rightarrow> bool" where
  "quiet w w' \<longleftrightarrow>
     take (length (sent w)) (sent w') = sent w \<and>
     list_all (\<lambda>rq. \<not> is_changes_request rq) (drop (length (sent w)) (sent w')) \<and>
     mock w' ''recentchanges'' = mock w ''recentchanges'' \<and>
     lastsync w' = lastsync w"

section \<open>Properties of the reducer\<close>

lemmas eval_defs = ev_page_def ev_log_def ev_move_def u16_def reduce_change_def no_todo_def
  moves_def export_titles_def remove_excluded_def is_excluded_def List.map_filter_simps

lemmas pred_defs = is_page_edit_def is_delete_def is_move_from_def is_move_to_def rekeys_def

lemma u16_literals [simp]:
  "u16 ''log'' \<noteq> u16 ''new''" "u16 ''log'' \<noteq> u16 ''edit''"
  "u16 ''new'' \<noteq> u16 ''log''" "u16 ''edit'' \<noteq> u16 ''log''"
  "u16 ''delete'' \<noteq> u16 ''move''" "u16 ''move'' \<noteq> u16 ''delete''"
  "u16 ''upload'' \<noteq> u16 ''move''" "u16 ''move'' \<noteq> u16 ''upload''"
  "u16 ''upload'' \<noteq> u16 ''delete''" "u16 ''delete'' \<noteq> u16 ''upload''"
  by (simp_all add: u16_def)

lemma reduce_changes_append:
  "reduce_changes st (xs @ ys) =
     (case reduce_changes st xs of Inl e \<Rightarrow> Inl e | Inr st' \<Rightarrow> reduce_changes st' ys)"
  by (induction xs arbitrary: st) (auto split: sum.splits)

lemma reduce_change_fileIds:
  "reduce_change st c = Inr st' \<Longrightarrow> fileIds st' = fileIds st"
  by (auto simp: reduce_change_def Let_def split: if_splits option.splits)

lemma reduce_changes_fileIds:
  "reduce_changes st cs = Inr st' \<Longrightarrow> fileIds st' = fileIds st"
proof (induction cs arbitrary: st)
  case Nil
  then show ?case by simp
next
  case (Cons c cs)
  from Cons.prems(1) obtain st1 where s1: "reduce_change st c = Inr st1" and r: "reduce_changes st1 cs = Inr st'"
    by (auto split: sum.splits)
  from Cons.IH [OF r] reduce_change_fileIds [OF s1] show ?case by simp
qed


lemma reduce_change_edit:
  assumes "type c = u16 ''new'' \<or> type c = u16 ''edit''"
  shows "reduce_change st c =
    Inr (st\<lparr>pages := AList.update (title c)
          (case map_of (pages st) (title c) of
             None \<Rightarrow> \<lparr>oldTitle = None, minor = change.minor c\<rparr>
           | Some i \<Rightarrow> i\<lparr>minor := (minor i \<and> change.minor c)\<rparr>) (pages st)\<rparr>)"
  using assms by (simp add: reduce_change_def split: option.split)

lemma reduce_change_delete:
  assumes "type c = u16 ''log''" "logtype c = u16 ''delete''" "logaction c = u16 ''delete''"
  shows "reduce_change st c = Inr (st\<lparr>pages := AList.delete (title c) (pages st)\<rparr>)"
  using assms by (simp add: reduce_change_def)

lemma reduce_change_move:
  assumes "type c = u16 ''log''" "logtype c = u16 ''move''" "logparams c = Some lp"
  shows "reduce_change st c =
    Inr (st\<lparr>pages :=
      (if suppressredirect lp
       then AList.delete (title c)
              (AList.update (target_title lp)
                 (case map_of (pages st) (title c) of
                    None \<Rightarrow> \<lparr>oldTitle = Some (title c), minor = True\<rparr> | Some i \<Rightarrow> i)
                 (pages st))
       else AList.update (title c) \<lparr>oldTitle = None, minor = False\<rparr>
              (AList.update (target_title lp)
                 (case map_of (pages st) (title c) of
                    None \<Rightarrow> \<lparr>oldTitle = Some (title c), minor = True\<rparr> | Some i \<Rightarrow> i)
                 (pages st)))\<rparr>)"
  using assms by (simp add: reduce_change_def Let_def split: option.split)

lemma reduce_change_move_fails:
  assumes "type c = u16 ''log''" "logtype c = u16 ''move''" "logparams c = None"
  shows "reduce_change st c = Inl TypeError"
  using assms by (simp add: reduce_change_def)

lemma reduce_change_other:
  assumes "type c \<noteq> u16 ''new''" "type c \<noteq> u16 ''edit''"
    and "type c = u16 ''log'' \<longrightarrow> logtype c \<noteq> u16 ''move'' \<and>
           (logtype c = u16 ''delete'' \<longrightarrow> logaction c \<noteq> u16 ''delete'')"
  shows "reduce_change st c = Inr st"
  using assms by (auto simp: reduce_change_def)

lemma change_kinds [case_names edit delete move other]:
  assumes "type c = u16 ''new'' \<or> type c = u16 ''edit'' \<Longrightarrow> P"
    and "\<lbrakk>type c = u16 ''log''; logtype c = u16 ''delete''; logaction c = u16 ''delete''\<rbrakk> \<Longrightarrow> P"
    and "\<lbrakk>type c = u16 ''log''; logtype c = u16 ''move''\<rbrakk> \<Longrightarrow> P"
    and "\<lbrakk>type c \<noteq> u16 ''new''; type c \<noteq> u16 ''edit'';
          type c = u16 ''log'' \<longrightarrow> logtype c \<noteq> u16 ''move'' \<and>
           (logtype c = u16 ''delete'' \<longrightarrow> logaction c \<noteq> u16 ''delete'')\<rbrakk> \<Longrightarrow> P"
  shows P
  using assms by blast

lemma reduce_change_distinct:
  assumes "reduce_change st c = Inr st'" and "distinct (map fst (pages st))"
  shows "distinct (map fst (pages st'))"
proof (cases c rule: change_kinds)
  case edit
  with assms show ?thesis by (auto simp: reduce_change_edit distinct_update)
next
  case delete
  with assms show ?thesis by (auto simp: reduce_change_delete distinct_delete)
next
  case move
  show ?thesis
  proof (cases "logparams c")
    case None
    with move assms show ?thesis by (simp add: reduce_change_move_fails)
  next
    case (Some lp)
    with move assms show ?thesis
      by (auto simp: reduce_change_move distinct_update distinct_delete)
  qed
next
  case other
  with assms show ?thesis by (simp add: reduce_change_other)
qed

lemma reduce_changes_distinct:
  assumes "reduce_changes st cs = Inr st'" and "distinct (map fst (pages st))"
  shows "distinct (map fst (pages st'))"
  using assms
proof (induction cs arbitrary: st)
  case Nil
  then show ?case by simp
next
  case (Cons c cs)
  from Cons.prems(1) obtain st1 where s1: "reduce_change st c = Inr st1" and r: "reduce_changes st1 cs = Inr st'"
    by (auto split: sum.splits)
  from Cons.IH [OF r reduce_change_distinct [OF s1 Cons.prems(2)]] show ?case .
qed

lemma reduce_change_edit_entry:
  assumes "reduce_change st c = Inr st'" and "\<not> rekeys t c"
  shows "map_of (pages st') t =
     (if is_page_edit t c then
        Some (case map_of (pages st) t of
                None \<Rightarrow> \<lparr>oldTitle = None, minor = change.minor c\<rparr>
              | Some i \<Rightarrow> i\<lparr>minor := (minor i \<and> change.minor c)\<rparr>)
      else map_of (pages st) t)"
proof (cases c rule: change_kinds)
  case edit
  with assms(1) have "pages st' = AList.update (title c)
          (case map_of (pages st) (title c) of
             None \<Rightarrow> \<lparr>oldTitle = None, minor = change.minor c\<rparr>
           | Some i \<Rightarrow> i\<lparr>minor := (minor i \<and> change.minor c)\<rparr>) (pages st)"
    by (auto simp: reduce_change_edit)
  with edit show ?thesis
    by (auto simp: is_page_edit_def update_conv')
next
  case delete
  with assms(1) have "pages st' = AList.delete (title c) (pages st)"
    by (auto simp: reduce_change_delete)
  with delete assms(2) show ?thesis
    by (auto simp: is_page_edit_def rekeys_def is_delete_def delete_conv')
next
  case move
  show ?thesis
  proof (cases "logparams c")
    case None
    with move assms show ?thesis by (simp add: reduce_change_move_fails)
  next
    case (Some lp)
    from assms(2) move Some have ne: "title c \<noteq> t" "target_title lp \<noteq> t"
      by (auto simp: rekeys_def is_move_from_def is_move_to_def)
    from assms(1) move Some ne have "map_of (pages st') t = map_of (pages st) t"
      by (auto simp: reduce_change_move update_conv' delete_conv')
    with move show ?thesis by (simp add: is_page_edit_def)
  qed
next
  case other
  with assms(1) have "st' = st" by (simp add: reduce_change_other)
  with other show ?thesis by (simp add: is_page_edit_def)
qed
lemma reduce_changes_edit_entry:
  assumes "reduce_changes st cs = Inr st'" and "\<forall>c\<in>set cs. \<not> rekeys t c"
  shows "map_of (pages st') t =
     (case map_of (pages st) t of
        None \<Rightarrow> if \<exists>c\<in>set cs. is_page_edit t c
                then Some \<lparr>oldTitle = None, minor = (\<forall>c\<in>set cs. is_page_edit t c \<longrightarrow> change.minor c)\<rparr>
                else None
      | Some i \<Rightarrow> Some (i\<lparr>minor := (minor i \<and> (\<forall>c\<in>set cs. is_page_edit t c \<longrightarrow> change.minor c))\<rparr>))"
  using assms
proof (induction cs arbitrary: st)
  case Nil
  then show ?case by (simp split: option.splits)
next
  case (Cons c cs)
  from Cons.prems(1) obtain st1 where s1: "reduce_change st c = Inr st1" and r: "reduce_changes st1 cs = Inr st'"
    by (auto split: sum.splits)
  from Cons.prems(2) have nc: "\<not> rekeys t c" and ncs: "\<forall>c\<in>set cs. \<not> rekeys t c" by simp_all
  note ih = Cons.IH [OF r ncs]
  note step = reduce_change_edit_entry [OF s1 nc]
  show ?case
    unfolding ih step
    by (auto split: option.splits)
qed


lemma moves_iff:
  "(f, t) \<in> set (moves ps) \<longleftrightarrow> (\<exists>i. (t, i) \<in> set ps \<and> oldTitle i = Some f \<and> f \<noteq> [] \<and> t \<noteq> f)"
  by (induction ps) (auto simp: moves_def List.map_filter_simps split: option.splits if_splits)

lemma pages_remove_excluded_iff:
  "(t, i) \<in> set (pages (remove_excluded ex st)) \<longleftrightarrow>
     (t, i) \<in> set (pages st) \<and> t \<notin> ex \<and> (\<forall>old. oldTitle i = Some old \<longrightarrow> old \<noteq> [] \<longrightarrow> old \<notin> ex)"
  by (auto simp: remove_excluded_def is_excluded_def split: option.splits)

lemma reduce_changes_old_kept:
  assumes "reduce_changes st cs = Inr st'" and "\<forall>c\<in>set cs. \<not> rekeys t c"
    and "map_of (pages st) t = Some i"
  shows "\<exists>i'. map_of (pages st') t = Some i' \<and> oldTitle i' = oldTitle i"
  using reduce_changes_edit_entry [OF assms(1,2)] assms(3) by simp

lemma reduce_change_no_old:
  assumes "reduce_change st c = Inr st'" and "\<not> is_move_to t c"
    and "\<forall>i. map_of (pages st) t = Some i \<longrightarrow> oldTitle i \<noteq> Some a"
  shows "\<forall>i. map_of (pages st') t = Some i \<longrightarrow> oldTitle i \<noteq> Some a"
proof (cases c rule: change_kinds)
  case edit
  with assms(1) have "pages st' = AList.update (title c)
          (case map_of (pages st) (title c) of
             None \<Rightarrow> \<lparr>oldTitle = None, minor = change.minor c\<rparr>
           | Some i \<Rightarrow> i\<lparr>minor := (minor i \<and> change.minor c)\<rparr>) (pages st)"
    by (auto simp: reduce_change_edit)
  with assms(3) show ?thesis
    by (auto simp: update_conv' split: option.splits)
next
  case delete
  with assms(1) have "pages st' = AList.delete (title c) (pages st)"
    by (auto simp: reduce_change_delete)
  with assms(3) show ?thesis
    by (auto simp: delete_conv')
next
  case move
  show ?thesis
  proof (cases "logparams c")
    case None
    with move assms show ?thesis by (simp add: reduce_change_move_fails)
  next
    case (Some lp)
    from assms(2) move Some have ne: "target_title lp \<noteq> t"
      by (auto simp: is_move_to_def)
    from assms(1) move Some
    have "pages st' = (if suppressredirect lp
       then AList.delete (title c)
              (AList.update (target_title lp)
                 (case map_of (pages st) (title c) of
                    None \<Rightarrow> \<lparr>oldTitle = Some (title c), minor = True\<rparr> | Some i \<Rightarrow> i)
                 (pages st))
       else AList.update (title c) \<lparr>oldTitle = None, minor = False\<rparr>
              (AList.update (target_title lp)
                 (case map_of (pages st) (title c) of
                    None \<Rightarrow> \<lparr>oldTitle = Some (title c), minor = True\<rparr> | Some i \<Rightarrow> i)
                 (pages st)))"
      by (auto simp: reduce_change_move)
    with ne assms(3) show ?thesis
      by (auto simp: update_conv' delete_conv')
  qed
next
  case other
  with assms(1) have "st' = st" by (simp add: reduce_change_other)
  with assms(3) show ?thesis by simp
qed

lemma reduce_changes_no_old:
  assumes "reduce_changes st cs = Inr st'" and "\<forall>c\<in>set cs. \<not> is_move_to t c"
    and "\<forall>i. map_of (pages st) t = Some i \<longrightarrow> oldTitle i \<noteq> Some a"
  shows "\<forall>i. map_of (pages st') t = Some i \<longrightarrow> oldTitle i \<noteq> Some a"
  using assms
proof (induction cs arbitrary: st)
  case Nil
  then show ?case by simp
next
  case (Cons c cs)
  from Cons.prems(1) obtain st1 where s1: "reduce_change st c = Inr st1" and r: "reduce_changes st1 cs = Inr st'"
    by (auto split: sum.splits)
  from Cons.prems(2) have nc: "\<not> is_move_to t c" and ncs: "\<forall>c\<in>set cs. \<not> is_move_to t c"
    by simp_all
  from Cons.IH [OF r ncs reduce_change_no_old [OF s1 nc Cons.prems(3)]] show ?case .
qed

text \<open>What one move does to the entries of its two titles.\<close>
lemma reduce_change_move_entries:
  assumes "reduce_change st m = Inr st'" and "is_move_from a m" and "is_move_to b m" and "a \<noteq> b"
  shows "map_of (pages st') b =
           Some (case map_of (pages st) a of
                   None \<Rightarrow> \<lparr>oldTitle = Some a, minor = True\<rparr> | Some i \<Rightarrow> i)"
    and "map_of (pages st') a = None \<or> map_of (pages st') a = Some \<lparr>oldTitle = None, minor = False\<rparr>"
proof -
  from assms(2,3) obtain lp where m: "type m = u16 ''log''" "logtype m = u16 ''move''"
    "logparams m = Some lp" "title m = a" "target_title lp = b"
    by (auto simp: is_move_from_def is_move_to_def split: option.splits)
  from assms(1) m
  have ps: "pages st' = (if suppressredirect lp
       then AList.delete a
              (AList.update b
                 (case map_of (pages st) a of
                    None \<Rightarrow> \<lparr>oldTitle = Some a, minor = True\<rparr> | Some i \<Rightarrow> i)
                 (pages st))
       else AList.update a \<lparr>oldTitle = None, minor = False\<rparr>
              (AList.update b
                 (case map_of (pages st) a of
                    None \<Rightarrow> \<lparr>oldTitle = Some a, minor = True\<rparr> | Some i \<Rightarrow> i)
                 (pages st)))"
    by (auto simp: reduce_change_move)
  from ps assms(4) show "map_of (pages st') b =
           Some (case map_of (pages st) a of
                   None \<Rightarrow> \<lparr>oldTitle = Some a, minor = True\<rparr> | Some i \<Rightarrow> i)"
    by (auto simp: update_conv' delete_conv')
  from ps show "map_of (pages st') a = None \<or> map_of (pages st') a = Some \<lparr>oldTitle = None, minor = False\<rparr>"
    by (auto simp: update_conv' delete_conv')
qed

lemma moves_into:
  assumes "distinct (map fst ps)" and "map_of ps c = Some i"
  shows "filter (\<lambda>(f, t). t = c) (moves ps) =
     (case oldTitle i of
        None \<Rightarrow> []
      | Some old \<Rightarrow> if old \<noteq> [] \<and> c \<noteq> old then [(old, c)] else [])"
  using assms
proof (induction ps)
  case Nil
  then show ?case by simp
next
  case (Cons p ps)
  obtain t j where p: "p = (t, j)" by (cases p)
  show ?case
  proof (cases "t = c")
    case True
    with Cons.prems p have j: "j = i" and notin: "c \<notin> fst ` set ps" by auto
    have "\<And>f. (f, c) \<notin> set (moves ps)"
      using notin by (force simp: moves_iff)
    then have "filter (\<lambda>(f, t). t = c) (moves ps) = []"
      by (auto simp: filter_empty_conv)
    with True p j show ?thesis
      by (simp add: moves_def List.map_filter_simps split: option.splits)
  next
    case False
    with Cons.prems p have "distinct (map fst ps)" "map_of ps c = Some i" by auto
    from Cons.IH [OF this] False p show ?thesis
      by (simp add: moves_def List.map_filter_simps split: option.splits)
  qed
qed

lemma remove_excluded_distinct:
  "distinct (map fst (pages st)) \<Longrightarrow> distinct (map fst (pages (remove_excluded ex st)))"
  by (simp add: remove_excluded_def distinct_map_filter)

lemma remove_excluded_kept:
  assumes "map_of (pages st) t = Some i" and "\<not> is_excluded ex (t, i)"
  shows "map_of (pages (remove_excluded ex st)) t = Some i"
proof -
  have "map_of (filter (\<lambda>(k, v). \<not> is_excluded ex (k, v)) (pages st)) t = Some i"
    using assms by (intro map_of_filter_in) simp_all
  then show ?thesis by (simp add: remove_excluded_def split_def)
qed

lemma remove_excluded_subset:
  "set (pages (remove_excluded ex st)) \<subseteq> set (pages st)"
  by (auto simp: remove_excluded_def)



section \<open>The claims about the reducer\<close>

text \<open>
  Claim C1, as stated: for \<^verbatim>\<open>[new("A", minor=true), log-move("A" -> "B", suppressredirect)]\<close>
  and no exclusions the pending map is \<^verbatim>\<open>{"B": {oldTitle: "A", minor: true}}\<close> and the move
  list is \<^verbatim>\<open>[("A", "B")]\<close>. The script gives something else: the move branch re-keys the
  entry that \<^verbatim>\<open>new\<close> made for "A", which has no \<^verbatim>\<open>oldTitle\<close>, so the entry of "B"
  has none and the move list is empty.
\<close>

theorem C1_counterexample:
  "reduce_changes no_todo [ev_page ''new'' ''A'' True, ev_move ''A'' ''B'' True] \<noteq>
     Inr \<lparr>pages = [(u16 ''B'', \<lparr>oldTitle = Some (u16 ''A''), minor = True\<rparr>)], fileIds = []\<rparr> \<and>
   moves (pages (remove_excluded {}
     \<lparr>pages = [(u16 ''B'', \<lparr>oldTitle = None, minor = True\<rparr>)], fileIds = []\<rparr>)) \<noteq>
     [(u16 ''A'', u16 ''B'')]"
  by (simp add: eval_defs)

text \<open>
  Claim C1, amended: for that event sequence and no exclusions the pending map is
  \<^verbatim>\<open>{"B": {minor: true}}\<close> with no \<^verbatim>\<open>oldTitle\<close>, the move list is empty, the export
  title list is \<^verbatim>\<open>["B"]\<close>, and "A" is in no pending entry, move pair or export title.
\<close>

theorem C1_new_then_move:
  "reduce_changes no_todo [ev_page ''new'' ''A'' True, ev_move ''A'' ''B'' True] =
     Inr \<lparr>pages = [(u16 ''B'', \<lparr>oldTitle = None, minor = True\<rparr>)], fileIds = []\<rparr> \<and>
   pages (remove_excluded {}
     \<lparr>pages = [(u16 ''B'', \<lparr>oldTitle = None, minor = True\<rparr>)], fileIds = []\<rparr>) =
     [(u16 ''B'', \<lparr>oldTitle = None, minor = True\<rparr>)] \<and>
   moves [(u16 ''B'', \<lparr>oldTitle = None, minor = True\<rparr>)] = [] \<and>
   export_titles [(u16 ''B'', \<lparr>oldTitle = None, minor = True\<rparr>)] = [u16 ''B''] \<and>
   u16 ''A'' \<noteq> u16 ''B''"
  by (simp add: eval_defs)

text \<open>
  Claim C2, as stated: every event sequence that contains the moves A to B and B to C, with
  no delete between them, has exactly the pair (A, C) in its move list. It fails when "A"
  already has a pending entry at the first move: here "A" is created in the window, the
  entry that travels to "C" has no \<^verbatim>\<open>oldTitle\<close>, and the move list is empty.
\<close>

theorem C2_counterexample:
  "reduce_changes no_todo
     [ev_page ''new'' ''A'' True, ev_move ''A'' ''B'' True, ev_move ''B'' ''C'' True] =
     Inr \<lparr>pages = [(u16 ''C'', \<lparr>oldTitle = None, minor = True\<rparr>)], fileIds = []\<rparr> \<and>
   moves (pages (remove_excluded {}
     \<lparr>pages = [(u16 ''C'', \<lparr>oldTitle = None, minor = True\<rparr>)], fileIds = []\<rparr>)) = []"
  by (simp add: eval_defs)

text \<open>
  Claim C2, amended: let the window be \<open>pre\<close>, the move of \<open>a\<close> to \<open>b\<close>, \<open>mid\<close>, the
  move of \<open>b\<close> to \<open>c\<close>, \<open>post\<close>, with \<open>a\<close>, \<open>b\<close>, \<open>c\<close> different and \<open>a\<close> not empty. If
  \<open>a\<close> has no pending entry after \<open>pre\<close>, no event of \<open>mid\<close> deletes or moves \<open>b\<close> or
  moves a page onto it, no event of \<open>post\<close> does so to \<open>c\<close> or moves a page onto \<open>b\<close>,
  and neither \<open>a\<close> nor \<open>c\<close> is excluded, then the move list has exactly one pair with
  destination \<open>c\<close>, the pair \<open>(a, c)\<close>, and has neither \<open>(a, b)\<close> nor \<open>(b, c)\<close>.
\<close>

theorem C2_move_chain:
  assumes pre: "reduce_changes no_todo pre = Inr st1" "map_of (pages st1) a = None"
    and run: "reduce_changes st1 ([m1] @ mid @ [m2] @ post) = Inr st"
    and m1: "is_move_from a m1" "is_move_to b m1"
    and m2: "is_move_from b m2" "is_move_to c m2"
    and mid: "\<forall>e\<in>set mid. \<not> rekeys b e"
    and post: "\<forall>e\<in>set post. \<not> rekeys c e \<and> \<not> is_move_to b e"
    and ne: "a \<noteq> []" "a \<noteq> b" "b \<noteq> c" "a \<noteq> c"
    and ex: "a \<notin> ex" "c \<notin> ex"
  shows "filter (\<lambda>(f, t). t = c) (moves (pages (remove_excluded ex st))) = [(a, c)] \<and>
         (a, b) \<notin> set (moves (pages (remove_excluded ex st))) \<and>
         (b, c) \<notin> set (moves (pages (remove_excluded ex st)))"
proof -
  from run obtain st2 st3 st4 where
    s2: "reduce_change st1 m1 = Inr st2" and
    s3: "reduce_changes st2 mid = Inr st3" and
    s4: "reduce_change st3 m2 = Inr st4" and
    s5: "reduce_changes st4 post = Inr st"
    by (auto simp: reduce_changes_append split: sum.splits)
  have d1: "distinct (map fst (pages st1))"
    using reduce_changes_distinct [OF pre(1)] by (simp add: no_todo_def)
  have d: "distinct (map fst (pages st))"
    using reduce_changes_distinct [OF s5] reduce_change_distinct [OF s4]
      reduce_changes_distinct [OF s3] reduce_change_distinct [OF s2] d1 by blast
  from reduce_change_move_entries(1) [OF s2 m1 ne(2)] pre(2)
  have b2: "map_of (pages st2) b = Some \<lparr>oldTitle = Some a, minor = True\<rparr>" by simp
  from reduce_changes_old_kept [OF s3 mid b2]
  obtain i3 where b3: "map_of (pages st3) b = Some i3" "oldTitle i3 = Some a" by auto
  from reduce_change_move_entries [OF s4 m2 ne(3)] b3
  have c4: "map_of (pages st4) c = Some i3"
    and b4: "\<forall>i. map_of (pages st4) b = Some i \<longrightarrow> oldTitle i \<noteq> Some a"
    by auto
  from post have pc: "\<forall>e\<in>set post. \<not> rekeys c e" and pb: "\<forall>e\<in>set post. \<not> is_move_to b e"
    by simp_all
  from reduce_changes_old_kept [OF s5 pc c4] b3(2)
  obtain i where c5: "map_of (pages st) c = Some i" "oldTitle i = Some a" by auto
  from reduce_changes_no_old [OF s5 pb b4]
  have b5: "\<forall>i. map_of (pages st) b = Some i \<longrightarrow> oldTitle i \<noteq> Some a" .
  let ?ps = "pages (remove_excluded ex st)"
  have dx: "distinct (map fst ?ps)" using d by (rule remove_excluded_distinct)
  have "\<not> is_excluded ex (c, i)" using c5(2) ex by (simp add: is_excluded_def)
  from remove_excluded_kept [OF c5(1) this] have cx: "map_of ?ps c = Some i" .
  have one: "filter (\<lambda>(f, t). t = c) (moves ?ps) = [(a, c)]"
    using moves_into [OF dx cx] c5(2) ne by simp
  have nab: "(a, b) \<notin> set (moves ?ps)"
  proof
    assume "(a, b) \<in> set (moves ?ps)"
    then obtain j where j: "(b, j) \<in> set ?ps" "oldTitle j = Some a" by (auto simp: moves_iff)
    then have "(b, j) \<in> set (pages st)" using remove_excluded_subset by blast
    with d have "map_of (pages st) b = Some j" by simp
    with b5 j(2) show False by simp
  qed
  have nbc: "(b, c) \<notin> set (moves ?ps)"
  proof
    assume "(b, c) \<in> set (moves ?ps)"
    then have "(b, c) \<in> set (filter (\<lambda>(f, t). t = c) (moves ?ps))" by simp
    with one ne(2) show False by simp
  qed
  from one nab nbc show ?thesis by simp
qed


theorem C2_witness:
  "reduce_changes no_todo [ev_page ''edit'' ''X'' False] =
     Inr \<lparr>pages = [(u16 ''X'', \<lparr>oldTitle = None, minor = False\<rparr>)], fileIds = []\<rparr> \<and>
   map_of [(u16 ''X'', \<lparr>oldTitle = None, minor = False\<rparr>)] (u16 ''A'') = None \<and>
   reduce_changes \<lparr>pages = [(u16 ''X'', \<lparr>oldTitle = None, minor = False\<rparr>)], fileIds = []\<rparr>
     ([ev_move ''A'' ''B'' False] @ [ev_page ''edit'' ''B'' True] @ [ev_move ''B'' ''C'' True] @
      [ev_page ''edit'' ''C'' False]) =
     Inr \<lparr>pages = [(u16 ''X'', \<lparr>oldTitle = None, minor = False\<rparr>),
                    (u16 ''A'', \<lparr>oldTitle = None, minor = False\<rparr>),
                    (u16 ''C'', \<lparr>oldTitle = Some (u16 ''A''), minor = False\<rparr>)], fileIds = []\<rparr> \<and>
   is_move_from (u16 ''A'') (ev_move ''A'' ''B'' False) \<and>
   is_move_to (u16 ''B'') (ev_move ''A'' ''B'' False) \<and>
   is_move_from (u16 ''B'') (ev_move ''B'' ''C'' True) \<and>
   is_move_to (u16 ''C'') (ev_move ''B'' ''C'' True) \<and>
   \<not> rekeys (u16 ''B'') (ev_page ''edit'' ''B'' True) \<and>
   \<not> rekeys (u16 ''C'') (ev_page ''edit'' ''C'' False) \<and>
   \<not> is_move_to (u16 ''B'') (ev_page ''edit'' ''C'' False) \<and>
   u16 ''A'' \<notin> {u16 ''X''} \<and> u16 ''C'' \<notin> {u16 ''X''} \<and>
   moves (pages (remove_excluded {u16 ''X''}
     \<lparr>pages = [(u16 ''X'', \<lparr>oldTitle = None, minor = False\<rparr>),
               (u16 ''A'', \<lparr>oldTitle = None, minor = False\<rparr>),
               (u16 ''C'', \<lparr>oldTitle = Some (u16 ''A''), minor = False\<rparr>)], fileIds = []\<rparr>)) =
     [(u16 ''A'', u16 ''C'')] \<and>
   (u16 ''A'', u16 ''B'') \<notin> set [(u16 ''A'', u16 ''C'')] \<and>
   (u16 ''B'', u16 ''C'') \<notin> set [(u16 ''A'', u16 ''C'')]"
proof -
  let ?st1 = "\<lparr>pages = [(u16 ''X'', \<lparr>oldTitle = None, minor = False\<rparr>)], fileIds = []\<rparr>"
  let ?st = "\<lparr>pages = [(u16 ''X'', \<lparr>oldTitle = None, minor = False\<rparr>),
                    (u16 ''A'', \<lparr>oldTitle = None, minor = False\<rparr>),
                    (u16 ''C'', \<lparr>oldTitle = Some (u16 ''A''), minor = False\<rparr>)], fileIds = []\<rparr>"
  have pre: "reduce_changes no_todo [ev_page ''edit'' ''X'' False] = Inr ?st1"
    by (simp add: eval_defs)
  have pre2: "map_of (pages ?st1) (u16 ''A'') = None"
    by (simp add: u16_def)
  have run: "reduce_changes ?st1
     ([ev_move ''A'' ''B'' False] @ [ev_page ''edit'' ''B'' True] @ [ev_move ''B'' ''C'' True] @
      [ev_page ''edit'' ''C'' False]) = Inr ?st"
    by (simp add: eval_defs)
  have m1: "is_move_from (u16 ''A'') (ev_move ''A'' ''B'' False)"
    "is_move_to (u16 ''B'') (ev_move ''A'' ''B'' False)"
    by (simp_all add: pred_defs ev_move_def ev_log_def)
  have m2: "is_move_from (u16 ''B'') (ev_move ''B'' ''C'' True)"
    "is_move_to (u16 ''C'') (ev_move ''B'' ''C'' True)"
    by (simp_all add: pred_defs ev_move_def ev_log_def)
  have mid: "\<forall>e\<in>set [ev_page ''edit'' ''B'' True]. \<not> rekeys (u16 ''B'') e"
    by (simp add: pred_defs ev_page_def u16_def)
  have post: "\<forall>e\<in>set [ev_page ''edit'' ''C'' False].
      \<not> rekeys (u16 ''C'') e \<and> \<not> is_move_to (u16 ''B'') e"
    by (simp add: pred_defs ev_page_def u16_def)
  have ne: "u16 ''A'' \<noteq> []" "u16 ''A'' \<noteq> u16 ''B''" "u16 ''B'' \<noteq> u16 ''C''"
    "u16 ''A'' \<noteq> u16 ''C''"
    by (simp_all add: u16_def)
  have ex: "u16 ''A'' \<notin> {u16 ''X''}" "u16 ''C'' \<notin> {u16 ''X''}"
    by (simp_all add: u16_def)
  have ms: "moves (pages (remove_excluded {u16 ''X''} ?st)) = [(u16 ''A'', u16 ''C'')]"
    by (simp add: eval_defs)
  from C2_move_chain [OF pre pre2 run m1 m2 mid post ne ex] pre pre2 run m1 m2 mid post ex ms
  show ?thesis by simp
qed

text \<open>
  Claim C3, as stated: no page whose current title or any pre-move title is in the exclusion
  set reaches the export title list. The filter looks at the key and at the one recorded
  \<^verbatim>\<open>oldTitle\<close> only. Here a page goes from "A" to "B" to "C", each move leaving a redirect,
  and "B" is excluded: the redirect "B" is dropped, the page, now "C", is exported.
\<close>

theorem C3_counterexample:
  "reduce_changes no_todo [ev_move ''A'' ''B'' False, ev_move ''B'' ''C'' False] =
     Inr \<lparr>pages = [(u16 ''B'', \<lparr>oldTitle = None, minor = False\<rparr>),
                    (u16 ''A'', \<lparr>oldTitle = None, minor = False\<rparr>),
                    (u16 ''C'', \<lparr>oldTitle = Some (u16 ''A''), minor = True\<rparr>)], fileIds = []\<rparr> \<and>
   export_titles (pages (remove_excluded {u16 ''B''}
     \<lparr>pages = [(u16 ''B'', \<lparr>oldTitle = None, minor = False\<rparr>),
               (u16 ''A'', \<lparr>oldTitle = None, minor = False\<rparr>),
               (u16 ''C'', \<lparr>oldTitle = Some (u16 ''A''), minor = True\<rparr>)], fileIds = []\<rparr>)) =
     [u16 ''A'', u16 ''C''] \<and>
   is_move_from (u16 ''B'') (ev_move ''B'' ''C'' False) \<and>
   is_move_to (u16 ''C'') (ev_move ''B'' ''C'' False) \<and>
   u16 ''B'' \<in> {u16 ''B''}"
  by (simp add: eval_defs pred_defs)

text \<open>
  Claim C3, amended: after the exclusion filter no title of the export title list is in the
  exclusion set, and no surviving entry has a recorded, non-empty \<^verbatim>\<open>oldTitle\<close> in the
  exclusion set. Titles a page had in between, or before a move that found a pending entry
  already there, are not recorded and not looked at.
\<close>

theorem C3_survivors_not_excluded:
  assumes "reduce_changes no_todo evs = Inr st"
  shows "(\<forall>t\<in>set (export_titles (pages (remove_excluded ex st))). t \<notin> ex) \<and>
         (\<forall>(t, i)\<in>set (pages (remove_excluded ex st)).
            case oldTitle i of None \<Rightarrow> True | Some old \<Rightarrow> old = [] \<or> old \<notin> ex)"
  by (auto simp: pages_remove_excluded_iff export_titles_def split: option.splits)

theorem C3_witness:
  "reduce_changes no_todo [ev_move ''A'' ''B'' False, ev_page ''edit'' ''D'' True] =
     Inr \<lparr>pages = [(u16 ''B'', \<lparr>oldTitle = Some (u16 ''A''), minor = True\<rparr>),
                    (u16 ''A'', \<lparr>oldTitle = None, minor = False\<rparr>),
                    (u16 ''D'', \<lparr>oldTitle = None, minor = True\<rparr>)], fileIds = []\<rparr> \<and>
   export_titles (pages (remove_excluded {u16 ''A''}
     \<lparr>pages = [(u16 ''B'', \<lparr>oldTitle = Some (u16 ''A''), minor = True\<rparr>),
               (u16 ''A'', \<lparr>oldTitle = None, minor = False\<rparr>),
               (u16 ''D'', \<lparr>oldTitle = None, minor = True\<rparr>)], fileIds = []\<rparr>)) = [u16 ''D''] \<and>
   u16 ''D'' \<notin> {u16 ''A''}"
proof -
  let ?st = "\<lparr>pages = [(u16 ''B'', \<lparr>oldTitle = Some (u16 ''A''), minor = True\<rparr>),
                    (u16 ''A'', \<lparr>oldTitle = None, minor = False\<rparr>),
                    (u16 ''D'', \<lparr>oldTitle = None, minor = True\<rparr>)], fileIds = []\<rparr>"
  have h: "reduce_changes no_todo [ev_move ''A'' ''B'' False, ev_page ''edit'' ''D'' True] = Inr ?st"
    by (simp add: eval_defs)
  have e: "export_titles (pages (remove_excluded {u16 ''A''} ?st)) = [u16 ''D'']"
    by (simp add: eval_defs)
  from C3_survivors_not_excluded [OF h, of "{u16 ''A''}"] h e show ?thesis
    by simp
qed

text \<open>
  Claim C5, as stated: an upload log event records title and page id in \<^verbatim>\<open>fileIds\<close>. The
  statement that did so is commented out in the script; the upload branch is empty.
\<close>

theorem C5_counterexample:
  "reduce_changes no_todo
     [\<lparr>type = u16 ''log'', title = u16 ''File:F.png'', pageid = 7, minor = False,
       logtype = u16 ''upload'', logaction = u16 ''upload'', logparams = None\<rparr>] =
   Inr \<lparr>pages = [], fileIds = []\<rparr>"
  by (simp add: eval_defs)

text \<open>
  Claim C5, amended: no event puts anything into \<^verbatim>\<open>fileIds\<close>; after the reduction, and
  after the exclusion filter, the file-upload map is empty, whatever was uploaded.
\<close>

theorem C5_fileIds_stay_empty:
  assumes "reduce_changes no_todo evs = Inr st"
  shows "fileIds st = [] \<and> fileIds (remove_excluded ex st) = []"
  using reduce_changes_fileIds [OF assms] by (simp add: remove_excluded_def no_todo_def)

theorem C5_witness:
  "reduce_changes no_todo
     [\<lparr>type = u16 ''log'', title = u16 ''File:F.png'', pageid = 7, minor = False,
       logtype = u16 ''upload'', logaction = u16 ''upload'', logparams = None\<rparr>,
      ev_page ''edit'' ''T'' True] =
   Inr \<lparr>pages = [(u16 ''T'', \<lparr>oldTitle = None, minor = True\<rparr>)], fileIds = []\<rparr> \<and>
   fileIds (remove_excluded {}
     \<lparr>pages = [(u16 ''T'', \<lparr>oldTitle = None, minor = True\<rparr>)], fileIds = []\<rparr>) = []"
proof -
  have h: "reduce_changes no_todo
     [\<lparr>type = u16 ''log'', title = u16 ''File:F.png'', pageid = 7, minor = False,
       logtype = u16 ''upload'', logaction = u16 ''upload'', logparams = None\<rparr>,
      ev_page ''edit'' ''T'' True] =
   Inr \<lparr>pages = [(u16 ''T'', \<lparr>oldTitle = None, minor = True\<rparr>)], fileIds = []\<rparr>"
    by (simp add: eval_defs)
  from C5_fileIds_stay_empty [OF h, of "{}"] h show ?thesis by simp
qed

text \<open>
  Claim C7, as stated: in every event sequence a title with a minor and a non-minor
  \<^verbatim>\<open>new\<close>/\<^verbatim>\<open>edit\<close> event ends with \<^verbatim>\<open>minor = false\<close>. A deletion drops the entry and
  the flag with it: here "T" gets a non-minor edit, is deleted and restored, and gets a
  minor edit; its entry ends with \<^verbatim>\<open>minor = true\<close>.
\<close>

theorem C7_counterexample:
  "reduce_changes no_todo
     [ev_page ''edit'' ''T'' False, ev_log ''delete'' ''delete'' ''T'' None,
      ev_log ''delete'' ''restore'' ''T'' None, ev_page ''edit'' ''T'' True] =
   Inr \<lparr>pages = [(u16 ''T'', \<lparr>oldTitle = None, minor = True\<rparr>)], fileIds = []\<rparr>"
  by (simp add: eval_defs)

text \<open>
  Claim C7, amended: in an event sequence where no event deletes the title, moves it or
  moves a page onto it, the title has a pending entry exactly when it has a
  \<^verbatim>\<open>new\<close>/\<^verbatim>\<open>edit\<close> event, and the \<^verbatim>\<open>minor\<close> flag of the entry is the conjunction of
  the flags of all its \<^verbatim>\<open>new\<close>/\<^verbatim>\<open>edit\<close> events: false as soon as one of them is
  not minor.
\<close>

theorem C7_minor_is_conjunction:
  assumes "reduce_changes no_todo evs = Inr st" and "\<forall>c\<in>set evs. \<not> rekeys t c"
  shows "map_of (pages st) t =
     (if \<exists>c\<in>set evs. is_page_edit t c
      then Some \<lparr>oldTitle = None,
                 minor = (\<forall>c\<in>set evs. is_page_edit t c \<longrightarrow> change.minor c)\<rparr>
      else None)"
  using reduce_changes_edit_entry [OF assms] by (simp add: no_todo_def)

theorem C7_witness:
  "reduce_changes no_todo [ev_page ''edit'' ''T'' True, ev_page ''new'' ''U'' True,
      ev_page ''edit'' ''T'' False] =
     Inr \<lparr>pages = [(u16 ''T'', \<lparr>oldTitle = None, minor = False\<rparr>),
                    (u16 ''U'', \<lparr>oldTitle = None, minor = True\<rparr>)], fileIds = []\<rparr> \<and>
   \<not> rekeys (u16 ''T'') (ev_page ''edit'' ''T'' True) \<and>
   \<not> rekeys (u16 ''T'') (ev_page ''new'' ''U'' True) \<and>
   \<not> rekeys (u16 ''T'') (ev_page ''edit'' ''T'' False) \<and>
   map_of [(u16 ''T'', \<lparr>oldTitle = None, minor = False\<rparr>),
           (u16 ''U'', \<lparr>oldTitle = None, minor = True\<rparr>)] (u16 ''T'') =
     Some \<lparr>oldTitle = None, minor = False\<rparr>"
proof -
  let ?evs = "[ev_page ''edit'' ''T'' True, ev_page ''new'' ''U'' True,
      ev_page ''edit'' ''T'' False]"
  let ?st = "\<lparr>pages = [(u16 ''T'', \<lparr>oldTitle = None, minor = False\<rparr>),
                    (u16 ''U'', \<lparr>oldTitle = None, minor = True\<rparr>)], fileIds = []\<rparr>"
  have h1: "reduce_changes no_todo ?evs = Inr ?st"
    by (simp add: eval_defs)
  have h2: "\<forall>c\<in>set ?evs. \<not> rekeys (u16 ''T'') c"
    by (simp add: pred_defs ev_page_def u16_def)
  from C7_minor_is_conjunction [OF h1 h2] h1 h2 show ?thesis
    by (simp add: pred_defs ev_page_def u16_def)
qed

text \<open>
  Claim C10: the move list is taken from the map the exclusion filter has gone through, so
  for every pair of it the source is not excluded, the destination is not excluded, and
  the two differ.
\<close>

theorem C10_moves_avoid_excluded:
  assumes "reduce_changes no_todo evs = Inr st"
    and "(f, t) \<in> set (moves (pages (remove_excluded ex st)))"
  shows "f \<notin> ex \<and> t \<notin> ex \<and> f \<noteq> t"
  using assms(2) by (auto simp: moves_iff pages_remove_excluded_iff)

theorem C10_witness:
  "reduce_changes no_todo [ev_move ''A'' ''B'' True] =
     Inr \<lparr>pages = [(u16 ''B'', \<lparr>oldTitle = Some (u16 ''A''), minor = True\<rparr>)], fileIds = []\<rparr> \<and>
   (u16 ''A'', u16 ''B'') \<in> set (moves (pages (remove_excluded {u16 ''X''}
     \<lparr>pages = [(u16 ''B'', \<lparr>oldTitle = Some (u16 ''A''), minor = True\<rparr>)], fileIds = []\<rparr>))) \<and>
   u16 ''A'' \<notin> {u16 ''X''} \<and> u16 ''B'' \<notin> {u16 ''X''} \<and> u16 ''A'' \<noteq> u16 ''B''"
proof -
  have h1: "reduce_changes no_todo [ev_move ''A'' ''B'' True] =
     Inr \<lparr>pages = [(u16 ''B'', \<lparr>oldTitle = Some (u16 ''A''), minor = True\<rparr>)], fileIds = []\<rparr>"
    by (simp add: eval_defs)
  have h2: "(u16 ''A'', u16 ''B'') \<in> set (moves (pages (remove_excluded {u16 ''X''}
     \<lparr>pages = [(u16 ''B'', \<lparr>oldTitle = Some (u16 ''A''), minor = True\<rparr>)], fileIds = []\<rparr>)))"
    by (simp add: eval_defs)
  from C10_moves_avoid_excluded [OF h1 h2] h1 h2 show ?thesis by simp
qed

section \<open>Properties of the export patch\<close>

lemmas regex_defs = fix_export_def unminor_def match_block_def match_minor_def starts_with_def
  is_space_def u16_def

lemma scan_revision_suffix: "scan_revision s = Some r \<Longrightarrow> \<exists>p. s = p @ r"
proof (induction s)
  case Nil
  then show ?case by simp
next
  case (Cons c cs)
  show ?case
  proof (cases "starts_with (u16 ''</revision>'') (c # cs)")
    case True
    with Cons.prems have "r = drop 11 (c # cs)" by simp
    then have "c # cs = take 11 (c # cs) @ r" by simp
    then show ?thesis by blast
  next
    case False
    with Cons.prems have "scan_revision cs = Some r" by simp
    from Cons.IH [OF this] obtain p where "cs = p @ r" by blast
    then have "c # cs = (c # p) @ r" by simp
    then show ?thesis by blast
  qed
qed

lemma scan_title_suffix: "scan_title s = Some (t, r) \<Longrightarrow> \<exists>p. s = p @ r"
proof (induction s arbitrary: t)
  case Nil
  then show ?case by (simp split: if_splits)
next
  case (Cons c cs)
  show ?case
  proof (cases "starts_with (u16 ''</title>'') (dropWhile is_space (c # cs))")
    case True
    with Cons.prems have "r = drop 8 (dropWhile is_space (c # cs))" by simp
    then have "c # cs = (takeWhile is_space (c # cs) @ take 8 (dropWhile is_space (c # cs))) @ r"
      by simp
    then show ?thesis by blast
  next
    case False
    with Cons.prems obtain t' where "scan_title cs = Some (t', r)" by (auto split: if_splits)
    from Cons.IH [OF this] obtain p where "cs = p @ r" by blast
    then have "c # cs = (c # p) @ r" by simp
    then show ?thesis by blast
  qed
qed

lemma match_block_suffix:
  assumes "match_block s = Some (t, r)"
  shows "take (length s - length r) s @ r = s"
proof -
  from assms obtain s2 where t: "scan_title (dropWhile is_space (drop 7 s)) = Some (t, s2)"
    and r: "scan_revision s2 = Some r"
    by (auto simp: match_block_def split: if_splits option.splits)
  from scan_title_suffix [OF t] obtain p1 where p1: "dropWhile is_space (drop 7 s) = p1 @ s2"
    by blast
  from scan_revision_suffix [OF r] obtain p2 where p2: "s2 = p2 @ r" by blast
  have "s = take 7 s @ takeWhile is_space (drop 7 s) @ dropWhile is_space (drop 7 s)"
    by simp
  with p1 p2 have "s = (take 7 s @ takeWhile is_space (drop 7 s) @ p1 @ p2) @ r"
    by simp
  then obtain p where p: "s = p @ r" by blast
  then show ?thesis by simp
qed

lemma replace_blocks_match:
  "match_block s = Some (t, rest) \<Longrightarrow>
   replace_blocks f s = f (take (length s - length rest) s) t @ replace_blocks f rest"
  by (subst replace_blocks.simps) simp

lemma replace_blocks_no_match:
  "match_block (c # cs) = None \<Longrightarrow> replace_blocks f (c # cs) = c # replace_blocks f cs"
  by (subst replace_blocks.simps) simp

lemma replace_blocks_Nil: "replace_blocks f [] = []"
  by (subst replace_blocks.simps) (simp add: match_block_def starts_with_def u16_def)

lemma replace_blocks_id:
  "(\<forall>str t. f str t = str) \<Longrightarrow> replace_blocks f s = s"
proof (induction f s rule: replace_blocks.induct)
  case (1 f s)
  show ?case
  proof (cases "match_block s")
    case None
    show ?thesis
    proof (cases s)
      case Nil
      then show ?thesis by (simp add: replace_blocks_Nil)
    next
      case (Cons c cs)
      with None "1.IH"(1) [OF None Cons "1.prems"] show ?thesis
        by (simp add: replace_blocks_no_match)
    qed
  next
    case (Some p)
    obtain t rest where p: "p = (t, rest)" by (cases p)
    from Some p have m: "match_block s = Some (t, rest)" by simp
    from "1.IH"(2) [OF Some p [symmetric] "1.prems"] have ih: "replace_blocks f rest = rest" .
    from "1.prems" have f: "f (take (length s - length rest) s) t = take (length s - length rest) s"
      by blast
    show ?thesis
      unfolding replace_blocks_match [OF m] f ih by (rule match_block_suffix [OF m])
  qed
qed

lemma occurs_append: "occurs pat ys \<Longrightarrow> occurs pat (xs @ ys)"
  by (induction xs) (auto simp: neq_Nil_conv elim: occurs.elims)

lemma match_minor_Nil: "match_minor [] = None"
  by (simp add: match_minor_def starts_with_def u16_def)

lemma strip_minor_unfold:
  "strip_minor s =
     (case match_minor s of
        Some r \<Rightarrow> r
      | None \<Rightarrow> (case s of [] \<Rightarrow> [] | c # cs \<Rightarrow> c # strip_minor cs))"
  by (cases s) (simp_all add: match_minor_Nil split: option.split)

lemma not_space_lt [simp]: "\<not> is_space 60" and not_space_slash [simp]: "\<not> is_space 47"
  by (simp_all add: is_space_def)

lemma match_minor_marker:
  assumes "\<forall>c\<in>set sp. is_space c" and "\<forall>c\<in>set sp'. is_space c"
  shows "match_minor (sp @ u16 ''<minor'' @ sp' @ u16 ''/>'' @ b) = Some b"
proof -
  have 1: "dropWhile is_space (sp @ u16 ''<minor'' @ sp' @ u16 ''/>'' @ b) =
      u16 ''<minor'' @ sp' @ u16 ''/>'' @ b"
    using assms(1) by (simp add: dropWhile_append2 u16_def)
  have 2: "dropWhile is_space (sp' @ u16 ''/>'' @ b) = u16 ''/>'' @ b"
    using assms(2) by (simp add: dropWhile_append2 u16_def)
  have 3: "drop 6 (u16 ''<minor'' @ sp' @ u16 ''/>'' @ b) = sp' @ u16 ''/>'' @ b"
    by (simp add: u16_def)
  show ?thesis
    unfolding match_minor_def Let_def 1 3 2
    by (simp add: starts_with_def u16_def)
qed

lemma starts_with_straddle:
  assumes "starts_with (u16 ''<minor'') (u @ x)" and "u \<noteq> []"
    and "x = [] \<or> is_space (hd x) \<or> hd x = 60"
  shows "starts_with (u16 ''<minor'') u"
proof (rule ccontr)
  assume n: "\<not> starts_with (u16 ''<minor'') u"
  let ?p = "u16 ''<minor''"
  have lp: "length ?p = 6" by (simp add: u16_def)
  from assms(1) have eq: "take 6 (u @ x) = ?p" by (simp add: starts_with_def lp)
  have short: "length u < 6"
  proof (rule ccontr)
    assume "\<not> length u < 6"
    with eq have "take 6 u = ?p" by simp
    with n show False by (simp add: starts_with_def lp)
  qed
  from eq have len: "length (take 6 (u @ x)) = 6" by (simp add: lp)
  with short have xne: "x \<noteq> []" by auto
  from eq have "take 6 (u @ x) ! length u = ?p ! length u" by simp
  with short xne have hd: "hd x = ?p ! length u"
    by (simp add: nth_append hd_conv_nth)
  from assms(2) short have k: "0 < length u" "length u < 6" by simp_all
  then have "?p ! length u \<in> {109, 105, 110, 111, 114}"
    by (auto simp: u16_def less_Suc_eq numeral_eq_Suc)
  with hd have "hd x \<in> {109, 105, 110, 111, 114}" by simp
  with assms(3) xne show False by (auto simp: is_space_def)
qed

lemma match_minor_none:
  assumes "\<not> occurs (u16 ''<minor'') a" and "a \<noteq> []" and "\<not> is_space (last a)"
    and "x = [] \<or> is_space (hd x) \<or> hd x = 60"
  shows "match_minor (a @ x) = None"
proof -
  let ?u = "dropWhile is_space a"
  from assms(2,3) have "last a \<in> set a" "\<not> is_space (last a)" by simp_all
  then have d: "dropWhile is_space (a @ x) = ?u @ x"
    by (rule dropWhile_append1)
  from assms(2,3) have une: "?u \<noteq> []"
    by (metis dropWhile_eq_Nil_conv last_in_set)
  have "a = takeWhile is_space a @ ?u" by simp
  with assms(1) occurs_append [of "u16 ''<minor''" ?u "takeWhile is_space a"]
  have "\<not> occurs (u16 ''<minor'') ?u" by auto
  with une have "\<not> starts_with (u16 ''<minor'') ?u"
    by (cases ?u) auto
  with starts_with_straddle [OF _ une assms(4)] have "\<not> starts_with (u16 ''<minor'') (?u @ x)"
    by blast
  then show ?thesis by (simp add: match_minor_def d)
qed

lemma strip_minor_first:
  assumes "\<not> occurs (u16 ''<minor'') a" and "a = [] \<or> \<not> is_space (last a)"
    and "\<forall>c\<in>set sp. is_space c" and "\<forall>c\<in>set sp'. is_space c"
  shows "strip_minor (a @ sp @ u16 ''<minor'' @ sp' @ u16 ''/>'' @ b) = a @ b"
  using assms(1,2)
proof (induction a)
  case Nil
  show ?case
    using match_minor_marker [OF assms(3,4), of b]
    by (subst strip_minor_unfold) simp
next
  case (Cons c a)
  let ?x = "sp @ u16 ''<minor'' @ sp' @ u16 ''/>'' @ b"
  have x: "?x = [] \<or> is_space (hd ?x) \<or> hd ?x = 60"
    using assms(3) by (cases sp) (simp_all add: u16_def)
  from Cons.prems have ca: "\<not> occurs (u16 ''<minor'') (c # a)" "c # a \<noteq> []"
    "\<not> is_space (last (c # a))" by simp_all
  from match_minor_none [OF ca x] have none: "match_minor ((c # a) @ ?x) = None" .
  from Cons.prems have a1: "\<not> occurs (u16 ''<minor'') a" by simp
  from Cons.prems have a2: "a = [] \<or> \<not> is_space (last a)" by (auto split: if_splits)
  from Cons.IH [OF a1 a2] have ih: "strip_minor (a @ ?x) = a @ b" .
  have "strip_minor ((c # a) @ ?x) = c # strip_minor (a @ ?x)"
    using none by (subst strip_minor_unfold) simp
  with ih show ?case by simp
qed


text \<open>
  One match of the outer pattern, from a \<^verbatim>\<open><title>\<close> to the first \<^verbatim>\<open></revision>\<close>
  after its \<^verbatim>\<open></title>\<close>: when the title between the tags, as it is written in the XML,
  is a key of the pending map with \<^verbatim>\<open>minor = false\<close>, the first marker of the match
  goes with the white space before it; under any other title the match stays; and with
  no \<^verbatim>\<open>minor = false\<close> in the map the whole XML stays.
\<close>

lemma fix_export_first_marker:
  assumes "match_block s = Some (t, rest)" and "map_of ps t = Some i" and "\<not> minor i"
    and "take (length s - length rest) s = a @ sp @ u16 ''<minor'' @ sp' @ u16 ''/>'' @ b"
    and "\<not> occurs (u16 ''<minor'') a" and "a = [] \<or> \<not> is_space (last a)"
    and "\<forall>c\<in>set sp. is_space c" and "\<forall>c\<in>set sp'. is_space c"
  shows "fix_export ps s = a @ b @ fix_export ps rest"
proof -
  have "unminor ps (take (length s - length rest) s) t = a @ b"
    using assms(2,3) by (simp add: unminor_def assms(4) strip_minor_first [OF assms(5-8)])
  then show ?thesis
    by (simp add: fix_export_def replace_blocks_match [OF assms(1)])
qed

lemma fix_export_other_title:
  assumes "match_block s = Some (t, rest)"
    and "map_of ps t = None \<or> (\<exists>j. map_of ps t = Some j \<and> minor j)"
  shows "fix_export ps s = take (length s - length rest) s @ fix_export ps rest"
proof -
  from assms(2) have "unminor ps (take (length s - length rest) s) t = take (length s - length rest) s"
    by (auto simp: unminor_def)
  then show ?thesis
    by (simp add: fix_export_def replace_blocks_match [OF assms(1)])
qed

lemma fix_export_all_minor:
  assumes "\<forall>(t, i)\<in>set ps. minor i"
  shows "fix_export ps xml = xml"
proof -
  have "\<forall>str t. unminor ps str t = str"
  proof (intro allI)
    fix str t
    show "unminor ps str t = str"
    proof (cases "map_of ps t")
      case None
      then show ?thesis by (simp add: unminor_def)
    next
      case (Some i)
      then have "(t, i) \<in> set ps" by (rule map_of_SomeD)
      with assms have "minor i" by auto
      with Some show ?thesis by (simp add: unminor_def)
    qed
  qed
  then show ?thesis
    unfolding fix_export_def by (rule replace_blocks_id)
qed

section \<open>The claim about the export patch\<close>

text \<open>
  Claim C4: for a title whose pending action has \<^verbatim>\<open>minor = false\<close> every
  \<^verbatim>\<open><minor/>\<close> marker in the revision block of the page is removed from the export.
  The callback looks up the title as it is written in the XML, where \<^verbatim>\<open>&\<close> is
  \<^verbatim>\<open>&amp;\<close>; the keys of the pending map are the titles of the change log, unescaped.
  The page \<^verbatim>\<open>A&B\<close> is edited twice, first not minor and then minor: its pending action
  has \<^verbatim>\<open>minor = false\<close>, and the export holds its current revision, with the marker.
  The lookup of \<^verbatim>\<open>A&amp;B\<close> finds no entry and the export comes back as it was, the
  marker in it. The same export under the title \<^verbatim>\<open>AB\<close> loses the marker.
\<close>

theorem C4_escaped_title_keeps_marker:
  "reduce_changes no_todo [ev_page ''edit'' ''A&B'' False, ev_page ''edit'' ''A&B'' True] =
     Inr \<lparr>pages = [(u16 ''A&B'', \<lparr>oldTitle = None, minor = False\<rparr>)], fileIds = []\<rparr> \<and>
   fix_export [(u16 ''A&B'', \<lparr>oldTitle = None, minor = False\<rparr>)]
     (u16 ''<mediawiki> <page> <title>A&amp;B</title> <ns>0</ns> <id>1</id> <revision> <id>3</id> <parentid>2</parentid> <minor/> <text>x</text> </revision> </page> </mediawiki>'') =
   u16 ''<mediawiki> <page> <title>A&amp;B</title> <ns>0</ns> <id>1</id> <revision> <id>3</id> <parentid>2</parentid> <minor/> <text>x</text> </revision> </page> </mediawiki>'' \<and>
   occurs (u16 ''<minor/>'')
     (u16 ''<mediawiki> <page> <title>A&amp;B</title> <ns>0</ns> <id>1</id> <revision> <id>3</id> <parentid>2</parentid> <minor/> <text>x</text> </revision> </page> </mediawiki>'') \<and>
   fix_export [(u16 ''AB'', \<lparr>oldTitle = None, minor = False\<rparr>)]
     (u16 ''<mediawiki> <page> <title>AB</title> <ns>0</ns> <id>1</id> <revision> <id>3</id> <parentid>2</parentid> <minor/> <text>x</text> </revision> </page> </mediawiki>'') =
   u16 ''<mediawiki> <page> <title>AB</title> <ns>0</ns> <id>1</id> <revision> <id>3</id> <parentid>2</parentid> <text>x</text> </revision> </page> </mediawiki>''"
  by (simp add: eval_defs regex_defs replace_blocks.simps)


section \<open>Properties of a run\<close>

lemma api_sent:
  "sent (snd (api net req label a w)) =
     (if cached label w = None then sent w @ [req] else sent w)"
  by (auto simp: api_def Let_def record_mock_def
      split: option.splits reply.splits sum.splits bool.splits)

lemma api_lastsync: "lastsync (snd (api net req label a w)) = lastsync w"
  by (auto simp: api_def Let_def record_mock_def
      split: option.splits reply.splits sum.splits bool.splits)

lemma api_mock_other:
  "label \<noteq> Some l \<Longrightarrow> mock (snd (api net req label a w)) l = mock w l"
  by (auto simp: api_def Let_def record_mock_def
      split: option.splits reply.splits sum.splits bool.splits)

lemma api_cached:
  "cached label w = Some d \<Longrightarrow> api net req label a w = (Inr d, w)"
  by (simp add: api_def)

lemma api_Inr:
  assumes "api net req label a w = (Inr d, w')" and "cached label w = None"
  shows "net (length (sent w)) = Data d \<and> check_errors d = Inr () \<and>
         w' = record_mock label d (w\<lparr>sent := sent w @ [req]\<rparr>)"
  using assms
  by (auto simp: api_def Let_def split: reply.splits sum.splits bool.splits if_splits)

lemma api_error_fatal:
  assumes "cached label w = None" and "api_error req (net (length (sent w)))"
    and "is_login_request req \<longrightarrow> a = Some login_ok"
  shows "fst (api net req label a w) = Inl APIError"
  using assms
  by (auto simp: api_def Let_def api_error_def login_ok_def check_errors_def own_fields_def
      split: reply.splits sum.splits bool.splits option.splits body.splits)

lemma take_prefix_iff: "take (length xs) ys = xs \<longleftrightarrow> (\<exists>zs. ys = xs @ zs)"
  by (metis append_eq_conv_conj append_take_drop_id)

lemma fatal_ok_refl: "fatal_ok net w r w"
  by (auto simp: fatal_ok_def)

lemma fatal_ok_Inr: "fatal_ok net w (Inr x) w' \<Longrightarrow> fatal_ok net w r w'"
  by (auto simp: fatal_ok_def)

lemma fatal_ok_trans:
  assumes "fatal_ok net w (Inr x) w1" and "fatal_ok net w1 r w2"
  shows "fatal_ok net w r w2"
proof -
  from assms(1) obtain new1 where p1: "sent w1 = sent w @ new1"
    unfolding fatal_ok_def take_prefix_iff by blast
  from assms(1) have n1: "\<And>n. length (sent w) \<le> n \<Longrightarrow> n < length (sent w1) \<Longrightarrow>
          \<not> is_move_request (sent w1 ! n) \<Longrightarrow> api_error (sent w1 ! n) (net n) \<Longrightarrow> False"
    unfolding fatal_ok_def by blast
  from assms(2) obtain new2 where p2: "sent w2 = sent w1 @ new2"
    unfolding fatal_ok_def take_prefix_iff by blast
  from assms(2) have n2: "\<And>n. length (sent w1) \<le> n \<Longrightarrow> n < length (sent w2) \<Longrightarrow>
          \<not> is_move_request (sent w2 ! n) \<Longrightarrow> api_error (sent w2 ! n) (net n) \<Longrightarrow>
          r = Inl APIError \<and> Suc n = length (sent w2)"
    unfolding fatal_ok_def by blast
  have nth: "sent w2 ! n = sent w1 ! n" if "n < length (sent w1)" for n
    using that p2 by (simp add: nth_append)
  have "take (length (sent w)) (sent w2) = sent w"
    using p1 p2 by simp
  moreover have "r = Inl APIError \<and> Suc n = length (sent w2)"
    if "length (sent w) \<le> n" "n < length (sent w2)"
      "\<not> is_move_request (sent w2 ! n)" "api_error (sent w2 ! n) (net n)" for n
  proof (cases "n < length (sent w1)")
    case True
    with that nth [OF True] n1 [of n] show ?thesis by simp
  next
    case False
    with that n2 [of n] show ?thesis by simp
  qed
  ultimately show ?thesis unfolding fatal_ok_def by blast
qed

lemma fatal_ok_api:
  assumes "is_login_request req \<longrightarrow> a = Some login_ok"
  shows "fatal_ok net w (fst (api net req label a w)) (snd (api net req label a w))"
proof (cases "cached label w")
  case None
  have s: "sent (snd (api net req label a w)) = sent w @ [req]"
    by (simp add: api_sent None)
  show ?thesis
    unfolding fatal_ok_def s
    using api_error_fatal [OF None _ assms, of net]
    by (auto simp: nth_append less_Suc_eq)
next
  case (Some d)
  then show ?thesis by (simp add: api_cached fatal_ok_refl)
qed

lemma quiet_refl: "quiet w w"
  by (simp add: quiet_def)

lemma quiet_trans:
  assumes "quiet w w1" and "quiet w1 w2"
  shows "quiet w w2"
proof -
  from assms obtain n1 n2 where s1: "sent w1 = sent w @ n1" and s2: "sent w2 = sent w1 @ n2"
    by (auto simp: quiet_def take_prefix_iff)
  with assms show ?thesis
    by (auto simp: quiet_def)
qed

lemma quiet_api:
  assumes "\<not> is_changes_request req" and "label \<noteq> Some ''recentchanges''"
  shows "quiet w (snd (api net req label a w))"
  using assms
  by (simp add: quiet_def api_sent api_lastsync api_mock_other)

lemma fatal_ok_api':
  assumes "api net req label a w = (r, w')" and "is_login_request req \<longrightarrow> a = Some login_ok"
  shows "fatal_ok net w r w'"
  using fatal_ok_api [OF assms(2), of net w label] assms(1) by simp

lemma quiet_api':
  assumes "api net req label a w = (r, w')"
    and "\<not> is_changes_request req" and "label \<noteq> Some ''recentchanges''"
  shows "quiet w w'"
  using quiet_api [OF assms(2,3), of w net a] assms(1) by simp

lemma fatal_ok_quiet_record_mock:
  "fatal_ok net w r (record_mock label d w') = fatal_ok net w r w'"
  "label \<noteq> Some ''recentchanges'' \<Longrightarrow> quiet w (record_mock label d w') = quiet w w'"
  by (auto simp: fatal_ok_def quiet_def record_mock_def split: option.splits)

lemma fatal_ok_Inl: "fatal_ok net w (Inl e) w' \<Longrightarrow> fatal_ok net w (Inl e) w'"
  by (auto simp: fatal_ok_def)

lemma apiLogin_step:
  assumes "apiLogin net s m w = (r, w')"
  shows "fatal_ok net w r w' \<and> quiet w w'"
proof -
  obtain r1 w1 where a1: "api net (GetLoginToken s) (mock_label m ''logintoken'') None w = (r1, w1)"
    by (cases "api net (GetLoginToken s) (mock_label m ''logintoken'') None w")
  have f1: "fatal_ok net w r1 w1"
    using a1 by (rule fatal_ok_api') (simp add: is_login_request_def)
  have q1: "quiet w w1"
    using a1 by (rule quiet_api') (simp_all add: is_changes_request_def mock_label_def)
  show ?thesis
  proof (cases r1)
    case (Inl e)
    with assms a1 have "r = r1" "w' = w1" by (simp_all add: apiLogin_def)
    with f1 q1 show ?thesis by simp
  next
    case (Inr d)
    note f1' = f1 [unfolded Inr]
    from assms a1 Inr
    have "w' = w1 \<or> (\<exists>k. api net (PostLogin s k) (mock_label m ''login'')
                               (Some login_ok) w1 = (r, w'))"
      by (auto simp: apiLogin_def split: sum.splits option.splits)
    then consider (stop) "w' = w1"
      | (go) k where "api net (PostLogin s k) (mock_label m ''login'')
                         (Some login_ok) w1 = (r, w')"
      by blast
    then show ?thesis
    proof cases
      case stop
      with fatal_ok_Inr [OF f1'] q1 show ?thesis by simp
    next
      case (go k)
      note a2 = go
      have f2: "fatal_ok net w1 r w'"
        using a2 by (rule fatal_ok_api') simp
      have q2: "quiet w1 w'"
        using a2 by (rule quiet_api') (simp_all add: is_changes_request_def mock_label_def)
      from fatal_ok_trans [OF f1' f2] quiet_trans [OF q1 q2] show ?thesis by simp
    qed
  qed
qed

lemma log_in_step:
  assumes "log_in net s m w = (r, w')"
  shows "fatal_ok net w r w' \<and> quiet w w'"
proof -
  obtain r1 w1 where a1: "apiLogin net s m w = (r1, w1)" by (cases "apiLogin net s m w")
  from apiLogin_step [OF a1] have f1: "fatal_ok net w r1 w1" and q1: "quiet w w1" by simp_all
  show ?thesis
  proof (cases r1)
    case (Inl e)
    with assms a1 have "r = Inl e" "w' = w1" by (simp_all add: log_in_def)
    with fatal_ok_Inl [OF f1 [unfolded Inl]] q1 show ?thesis by simp
  next
    case (Inr d)
    with assms a1 have "w' = w1" by (auto simp: log_in_def split: sum.splits option.splits)
    with fatal_ok_Inr [OF f1 [unfolded Inr]] q1 show ?thesis by simp
  qed
qed

lemma query_pages_fatal:
  assumes "query_pages net req label data results w = Some y"
    and "\<forall>c. \<not> is_login_request (req c)"
  shows "fatal_ok net w (fst y) (snd y)"
  using assms(2)
proof (induction net req label data results w y rule: query_pages.raw_induct)
  case (1 qp net req label data results w y)
  obtain r1 w1 where a1: "api net (req (continue_params data)) label None w = (r1, w1)"
    by (cases "api net (req (continue_params data)) label None w")
  have f1: "fatal_ok net w r1 w1"
    using a1 by (rule fatal_ok_api') (simp add: "1.prems")
  show ?case
  proof (cases r1)
    case (Inl e)
    with "1.hyps" a1 have "y = (Inl e, w1)" by simp
    with fatal_ok_Inl [OF f1 [unfolded Inl]] show ?thesis by simp
  next
    case (Inr d)
    note f1' = f1 [unfolded Inr]
    from "1.hyps" a1 Inr consider (stop) "snd y = w1"
      | (go) res where "qp net req label (Some d) (Some res) w1 = Some y"
      by (auto simp: Let_def split: sum.splits option.splits if_splits)
    then show ?thesis
    proof cases
      case stop
      with fatal_ok_Inr [OF f1'] show ?thesis by simp
    next
      case (go res)
      from "1.IH" [OF this "1.prems"] have "fatal_ok net w1 (fst y) (snd y)" .
      with fatal_ok_trans [OF f1'] show ?thesis by blast
    qed
  qed
qed (fact assms(1))

lemma query_pages_quiet:
  assumes "query_pages net req label data results w = Some y"
    and "\<forall>c. \<not> is_changes_request (req c)" and "label \<noteq> Some ''recentchanges''"
  shows "quiet w (snd y)"
  using assms(2,3)
proof (induction net req label data results w y rule: query_pages.raw_induct)
  case (1 qp net req label data results w y)
  obtain r1 w1 where a1: "api net (req (continue_params data)) label None w = (r1, w1)"
    by (cases "api net (req (continue_params data)) label None w")
  have q1: "quiet w w1"
    using a1 by (rule quiet_api') (simp_all add: "1.prems")
  show ?case
  proof (cases r1)
    case (Inl e)
    with "1.hyps" a1 have "y = (Inl e, w1)" by simp
    with q1 show ?thesis by simp
  next
    case (Inr d)
    from "1.hyps" a1 Inr consider (stop) "snd y = w1"
      | (go) res where "qp net req label (Some d) (Some res) w1 = Some y"
      by (auto simp: Let_def split: sum.splits option.splits if_splits)
    then show ?thesis
    proof cases
      case stop
      with q1 show ?thesis by simp
    next
      case (go res)
      from "1.IH" [OF this "1.prems"] have "quiet w1 (snd y)" .
      with quiet_trans [OF q1] show ?thesis by blast
    qed
  qed
qed (fact assms(1))

lemma query_pages_cached_loop:
  assumes "query_pages net req label data results w = Some y"
  shows "\<not> (\<exists>d. cached label w = Some (JObject d) \<and> query d \<noteq> None \<and> has_continue d)"
proof (induction net req label data results w y rule: query_pages.raw_induct)
  case (1 qp net req label data results w y)
  show ?case
  proof
    assume "\<exists>d. cached label w = Some (JObject d) \<and> query d \<noteq> None \<and> has_continue d"
    then obtain d q where c: "cached label w = Some (JObject d)" and q: "query d = Some q"
      and h: "has_continue d" by auto
    from api_cached [OF c]
    have "api net (req (continue_params data)) label None w = (Inr (JObject d), w)" .
    with "1.hyps" q h
    have "qp net req label (Some (JObject d))
            (Some (case results of None \<Rightarrow> q | Some rs \<Rightarrow> merge_query rs q)) w = Some y"
      by (simp add: Let_def own_fields_def)
    from "1.IH" [OF this] c q h show False by blast
  qed
qed (fact assms)

lemma apiQueryListAll_step:
  assumes "apiQueryListAll net req label w = Some (r, w')"
    and "\<forall>c. \<not> is_login_request (req c)"
  shows "fatal_ok net w r w'"
    and "\<forall>c. \<not> is_changes_request (req c) \<Longrightarrow> label \<noteq> Some ''recentchanges'' \<Longrightarrow> quiet w w'"
proof -
  from assms(1) obtain y where y: "query_pages net req label None None w = Some y"
    by (auto simp: apiQueryListAll_def split: option.splits)
  from query_pages_fatal [OF y assms(2)] have f: "fatal_ok net w (fst y) (snd y)" .
  obtain r1 w1 where y1: "y = (r1, w1)" by (cases y)
  show "fatal_ok net w r w'"
  proof (cases r1)
    case (Inl e)
    with assms(1) y y1 have "r = Inl e" "w' = w1" by (simp_all add: apiQueryListAll_def)
    with fatal_ok_Inl [OF f [unfolded y1 Inl fst_conv snd_conv]] show ?thesis by simp
  next
    case (Inr p)
    obtain d res where p: "p = (d, res)" by (cases p)
    with assms(1) y y1 Inr have "(\<exists>b. w' = record_mock label b w1) \<or> w' = w1"
      by (auto simp: apiQueryListAll_def split: body.splits)
    with fatal_ok_Inr [OF f [unfolded y1 Inr fst_conv snd_conv]] show ?thesis
      by (auto simp: fatal_ok_quiet_record_mock)
  qed
  assume c: "\<forall>c. \<not> is_changes_request (req c)" and l: "label \<noteq> Some ''recentchanges''"
  from query_pages_quiet [OF y c l] y1 have q: "quiet w w1" by simp
  show "quiet w w'"
  proof (cases r1)
    case (Inl e)
    with assms(1) y y1 have "w' = w1" by (simp_all add: apiQueryListAll_def)
    with q show ?thesis by simp
  next
    case (Inr p)
    obtain d res where p: "p = (d, res)" by (cases p)
    with assms(1) y y1 Inr have "(\<exists>b. w' = record_mock label b w1) \<or> w' = w1"
      by (auto simp: apiQueryListAll_def split: body.splits)
    with q l show ?thesis
      by (auto simp: fatal_ok_quiet_record_mock)
  qed
qed

lemma single_api_step:
  assumes "api net req label None w = (r1, w1)"
    and "\<not> is_login_request req"
    and "(\<exists>e. r1 = Inl e \<and> r = Inl e) \<or> (\<exists>d. r1 = Inr d)"
  shows "fatal_ok net w r w1"
    and "\<not> is_changes_request req \<Longrightarrow> label \<noteq> Some ''recentchanges'' \<Longrightarrow> quiet w w1"
proof -
  have f1: "fatal_ok net w r1 w1"
    using assms(1) by (rule fatal_ok_api') (simp add: assms(2))
  from assms(3) show "fatal_ok net w r w1"
  proof
    assume "\<exists>e. r1 = Inl e \<and> r = Inl e"
    then obtain e where "r1 = Inl e" "r = Inl e" by blast
    with fatal_ok_Inl [of net w e w1] f1 show ?thesis by simp
  next
    assume "\<exists>d. r1 = Inr d"
    then obtain d where "r1 = Inr d" by blast
    with fatal_ok_Inr [of net w d w1] f1 show ?thesis by simp
  qed
  assume "\<not> is_changes_request req" "label \<noteq> Some ''recentchanges''"
  with assms(1) show "quiet w w1" by (rule quiet_api')
qed

lemma fetch_excluded_step:
  assumes "fetch_excluded net w = Some (r, w')"
  shows "fatal_ok net w r w' \<and> quiet w w'"
proof -
  from assms obtain r1 where a: "apiQueryListAll net ListCategoryMembers (Some ''excludedpages'') w = Some (r1, w')"
    by (auto simp: fetch_excluded_def split: option.splits sum.splits)
  have l: "\<forall>c. \<not> is_login_request (ListCategoryMembers c)"
    and c: "\<forall>c. \<not> is_changes_request (ListCategoryMembers c)"
    and n: "Some ''excludedpages'' \<noteq> Some ''recentchanges''"
    by (simp_all add: is_login_request_def is_changes_request_def)
  from apiQueryListAll_step [OF a l] c n have f: "fatal_ok net w r1 w'" and q: "quiet w w'"
    by simp_all
  show ?thesis
  proof (cases r1)
    case (Inl e)
    with assms a have "r = Inl e" by (simp add: fetch_excluded_def)
    with fatal_ok_Inl [OF f [unfolded Inl]] q show ?thesis by simp
  next
    case (Inr d)
    with fatal_ok_Inr [OF f [unfolded Inr]] q show ?thesis by simp
  qed
qed

lemma fetch_changes_fatal:
  assumes "fetch_changes net w = Some (r, w')"
  shows "fatal_ok net w r w'"
proof -
  from assms obtain r1 where a: "apiQueryListAll net ListRecentChanges (Some ''recentchanges'') w = Some (r1, w')"
    by (auto simp: fetch_changes_def split: option.splits sum.splits)
  have l: "\<forall>c. \<not> is_login_request (ListRecentChanges c)"
    by (simp_all add: is_login_request_def)
  from apiQueryListAll_step(1) [OF a l] have f: "fatal_ok net w r1 w'" .
  show ?thesis
  proof (cases r1)
    case (Inl e)
    with assms a have "r = Inl e" by (simp add: fetch_changes_def)
    with fatal_ok_Inl [OF f [unfolded Inl]] show ?thesis by simp
  next
    case (Inr d)
    show ?thesis by (rule fatal_ok_Inr [OF f [unfolded Inr]])
  qed
qed

lemma query_pages_first:
  "query_pages net req label None None w =
    (case api net (req []) label None w of
       (Inl e, w') \<Rightarrow> Some (Inl e, w')
     | (Inr d, w') \<Rightarrow>
         (case own_fields d of
            Inl e \<Rightarrow> Some (Inl e, w')
          | Inr r \<Rightarrow>
              (case query r of
                 None \<Rightarrow> Some (Inr (d, None), w')
               | Some q \<Rightarrow>
                   if has_continue r then query_pages net req label (Some d) (Some q) w'
                   else Some (Inr (d, Some q), w'))))"
  by (subst query_pages.simps)
    (simp add: continue_params_def Let_def split: prod.splits sum.splits option.splits)

text \<open>A change-log query that returns has sent one request.\<close>
lemma fetch_changes_once:
  assumes "fetch_changes net w = Some (Inr (changes, syncTime), w')"
    and "mock w ''recentchanges'' = None"
  shows "sent w' = sent w @ [ListRecentChanges []] \<and> lastsync w' = lastsync w \<and>
         (\<exists>d q. net (length (sent w)) = Data (JObject d) \<and> syncTime = curtimestamp d \<and>
                query d = Some q \<and> recentchanges q = Some changes)"
proof -
  let ?l = "Some ''recentchanges''"
  from assms(1) obtain data q where
    a: "apiQueryListAll net ListRecentChanges ?l w = Some (Inr (JObject data), w')"
    and t: "syncTime = curtimestamp data"
    and qd: "query data = Some q" "recentchanges q = Some changes"
    by (auto simp: fetch_changes_def own_fields_def plain_def
        split: option.splits sum.splits body.splits)
  from a obtain d res w1 where
    y: "query_pages net ListRecentChanges ?l None None w = Some (Inr (JObject d, res), w1)"
    and data: "data = d\<lparr>query := res\<rparr>" and w': "w' = record_mock ?l (JObject data) w1"
    by (auto simp: apiQueryListAll_def split: option.splits sum.splits body.splits)
  have c: "cached ?l w = None" using assms(2) by (simp add: cached_def)
  obtain r0 w0 where a0: "api net (ListRecentChanges []) ?l None w = (r0, w0)"
    by (cases "api net (ListRecentChanges []) ?l None w")
  have s0: "sent w0 = sent w @ [ListRecentChanges []]" "lastsync w0 = lastsync w"
    using api_sent [of net "ListRecentChanges []" ?l None w]
      api_lastsync [of net "ListRecentChanges []" ?l None w] a0 c by simp_all
  from y a0 have u: "(case r0 of
       Inl e \<Rightarrow> Some (Inl e, w0)
     | Inr d \<Rightarrow>
         (case own_fields d of
            Inl e \<Rightarrow> Some (Inl e, w0)
          | Inr r \<Rightarrow>
              (case query r of
                 None \<Rightarrow> Some (Inr (d, None), w0)
               | Some q \<Rightarrow>
                   if has_continue r then query_pages net ListRecentChanges ?l (Some d) (Some q) w0
                   else Some (Inr (d, Some q), w0)))) = Some (Inr (JObject d, res), w1)"
    by (simp add: query_pages_first)
  then obtain b0 where r0: "r0 = Inr b0" by (cases r0) auto
  from api_Inr [OF a0 [unfolded r0] c] have n0: "net (length (sent w)) = Data b0"
    and w0: "w0 = record_mock ?l b0 (w\<lparr>sent := sent w @ [ListRecentChanges []]\<rparr>)"
    by simp_all
  from w0 have m0: "cached ?l w0 = Some b0"
    by (simp add: cached_def record_mock_def)
  have "b0 = JObject d \<and> w1 = w0 \<and> res = query d"
  proof (cases b0)
    case JNull
    with u r0 show ?thesis by (simp add: own_fields_def)
  next
    case (JPrimitive t)
    with u r0 show ?thesis by (simp add: own_fields_def plain_def)
  next
    case (JObject d0)
    show ?thesis
    proof (cases "query d0")
      case None
      with u r0 JObject show ?thesis by (simp add: own_fields_def)
    next
      case (Some q)
      show ?thesis
      proof (cases "has_continue d0")
        case True
        with u r0 JObject Some
        have "query_pages net ListRecentChanges ?l (Some (JObject d0)) (Some q) w0 =
                Some (Inr (JObject d, res), w1)"
          by (simp add: own_fields_def)
        from query_pages_cached_loop [OF this] m0 JObject Some True show ?thesis by simp
      next
        case False
        with u r0 JObject Some show ?thesis by (simp add: own_fields_def)
      qed
    qed
  qed
  with s0 w' data t n0 qd show ?thesis
    by (simp add: record_mock_def)
qed

lemma writeFile_sent: "sent (snd (writeFile t w)) = sent w"
  by (simp add: writeFile_def split: option.splits)

lemma fatal_ok_sent:
  "sent w2 = sent w1 \<Longrightarrow> fatal_ok net w r w2 = fatal_ok net w r w1"
  by (simp add: fatal_ok_def)

lemma export_pages_step:
  assumes "export_pages net ps w = (r, w')"
  shows "fatal_ok net w r w' \<and> quiet w w'"
proof (cases "ps = []")
  case True
  with assms show ?thesis by (simp add: export_pages_def fatal_ok_refl quiet_refl)
next
  case False
  obtain r1 w1 where a: "api net (Export (export_titles ps)) (Some ''export'') None w = (r1, w1)"
    by (cases "api net (Export (export_titles ps)) (Some ''export'') None w")
  from assms a False have w: "w' = w1"
    and r: "(\<exists>e. r1 = Inl e \<and> r = Inl e) \<or> (\<exists>d. r1 = Inr d)"
    by (auto simp: export_pages_def split: sum.splits option.splits)
  from single_api_step [OF a _ r] w show ?thesis
    by (simp add: is_login_request_def is_changes_request_def)
qed

lemma fetch_file_urls_step:
  assumes "fetch_file_urls net fs w = (r, w')"
  shows "fatal_ok net w r w' \<and> quiet w w'"
proof (cases "fs = []")
  case True
  with assms show ?thesis by (simp add: fetch_file_urls_def fatal_ok_refl quiet_refl)
next
  case False
  obtain r1 w1 where a: "api net (FileUrls (map snd fs)) (Some ''fileurls'') None w = (r1, w1)"
    by (cases "api net (FileUrls (map snd fs)) (Some ''fileurls'') None w")
  from assms a False have w: "w' = w1"
    and r: "(\<exists>e. r1 = Inl e \<and> r = Inl e) \<or> (\<exists>d. r1 = Inr d)"
    by (auto simp: fetch_file_urls_def split: sum.splits option.splits if_splits)
  from single_api_step [OF a _ r] w show ?thesis
    by (simp add: is_login_request_def is_changes_request_def)
qed

lemma fetch_csrf_step:
  assumes "fetch_csrf net w = (r, w')"
  shows "fatal_ok net w r w' \<and> quiet w w'"
proof -
  obtain r1 w1 where a: "api net GetCsrfToken None None w = (r1, w1)"
    by (cases "api net GetCsrfToken None None w")
  from assms a have w: "w' = w1"
    and r: "(\<exists>e. r1 = Inl e \<and> r = Inl e) \<or> (\<exists>d. r1 = Inr d)"
    by (auto simp: fetch_csrf_def split: sum.splits option.splits)
  from single_api_step [OF a _ r] w show ?thesis
    by (simp add: is_login_request_def is_changes_request_def)
qed

lemma import_pages_step:
  assumes "import_pages net token xml w = (r, w')"
  shows "fatal_ok net w r w' \<and> quiet w w'"
proof (cases "xml = []")
  case True
  with assms show ?thesis by (simp add: import_pages_def fatal_ok_refl quiet_refl)
next
  case False
  obtain r1 w1 where a: "api net (Import xml token) (Some '''') None w = (r1, w1)"
    by (cases "api net (Import xml token) (Some '''') None w")
  from assms a False have w: "w' = w1"
    and r: "(\<exists>e. r1 = Inl e \<and> r = Inl e) \<or> (\<exists>d. r1 = Inr d)"
    by (auto simp: import_pages_def split: sum.splits)
  from single_api_step [OF a _ r] w show ?thesis
    by (simp add: is_login_request_def is_changes_request_def)
qed

lemma move_step:
  "fatal_ok net w (Inr x) (snd (api net (Move f t k) label a w))"
  by (auto simp: fatal_ok_def api_sent nth_append is_move_request_def)

lemma move_pages_step:
  "fatal_ok net w (Inr x) (move_pages net token ms w) \<and> quiet w (move_pages net token ms w)"
proof (induction ms arbitrary: w)
  case Nil
  show ?case by (simp add: fatal_ok_refl quiet_refl)
next
  case (Cons m ms)
  obtain f t where m: "m = (f, t)" by (cases m)
  let ?w1 = "snd (api net (Move f t token) (Some '''') None w)"
  have f1: "fatal_ok net w (Inr x) ?w1" by (rule move_step)
  have q1: "quiet w ?w1" by (rule quiet_api) (simp_all add: is_changes_request_def)
  from Cons.IH [of ?w1] fatal_ok_trans [OF f1] quiet_trans [OF q1] m show ?case
    by auto
qed

lemma api_unlabelled_mock:
  "mock (snd (api net req (Some '''') a w)) = mock w"
  by (auto simp: api_def Let_def record_mock_def
      split: option.splits reply.splits sum.splits bool.splits)

lemma move_pages_sent:
  assumes "mock w '''' = None"
  shows "sent (move_pages net token ms w) = sent w @ map (\<lambda>(f, t). Move f t token) ms \<and>
         mock (move_pages net token ms w) = mock w"
  using assms
proof (induction ms arbitrary: w)
  case Nil
  show ?case by simp
next
  case (Cons m ms)
  obtain f t where m: "m = (f, t)" by (cases m)
  let ?w1 = "snd (api net (Move f t token) (Some '''') None w)"
  have m1: "mock ?w1 = mock w" by (rule api_unlabelled_mock)
  have s1: "sent ?w1 = sent w @ [Move f t token]"
    using Cons.prems by (simp add: api_sent cached_def)
  from Cons.prems m1 have "mock ?w1 '''' = None" by simp
  from Cons.IH [OF this] m1 s1 m show ?case by simp
qed

lemma import_pages_sent:
  assumes "mock w '''' = None"
  shows "sent (snd (import_pages net token xml w)) =
           sent w @ (if xml = [] then [] else [Import xml token])"
proof (cases "xml = []")
  case True
  then show ?thesis by (simp add: import_pages_def)
next
  case False
  have "snd (import_pages net token xml w) = snd (api net (Import xml token) (Some '''') None w)"
    using False by (simp add: import_pages_def split: prod.splits sum.splits)
  with assms False show ?thesis by (simp add: api_sent cached_def)
qed

lemma quiet_sent:
  "sent w2 = sent w1 \<Longrightarrow> mock w2 = mock w1 \<Longrightarrow> lastsync w2 = lastsync w1 \<Longrightarrow>
   quiet w w2 = quiet w w1"
  by (simp add: quiet_def)

lemma writeFile_cases:
  "writeFile t w = (r, w') \<Longrightarrow>
   sent w' = sent w \<and> mock w' = mock w \<and>
   (case t of None \<Rightarrow> r = Inl TypeError \<and> lastsync w' = lastsync w
            | Some ts \<Rightarrow> r = Inr () \<and> lastsync w' = Some ts)"
  by (auto simp: writeFile_def split: option.splits)

lemma sync_target_step:
  assumes "sync_target net ms xml t w = (r, w')"
  shows "fatal_ok net w r w' \<and>
         (\<exists>v. quiet w v \<and> sent w' = sent v \<and>
              (r = Inr () \<longrightarrow> lastsync w' = (case t of None \<Rightarrow> lastsync w | Some ts \<Rightarrow> Some ts)))"
proof -
  obtain r1 w1 where a1: "log_in net Target (mock w '''' \<noteq> None) w = (r1, w1)"
    by (cases "log_in net Target (mock w '''' \<noteq> None) w")
  from log_in_step [OF a1] have f1: "fatal_ok net w r1 w1" and q1: "quiet w w1" by simp_all
  show ?thesis
  proof (cases r1)
    case (Inl e)
    with assms a1 have "r = Inl e" "w' = w1" by (simp_all add: sync_target_def)
    with fatal_ok_Inl [OF f1 [unfolded Inl]] q1 show ?thesis by auto
  next
    case (Inr u1)
    note f1' = f1 [unfolded Inr]
    obtain r2 w2 where a2: "fetch_csrf net w1 = (r2, w2)" by (cases "fetch_csrf net w1")
    from fetch_csrf_step [OF a2] have f2: "fatal_ok net w1 r2 w2" and q2: "quiet w1 w2"
      by simp_all
    show ?thesis
    proof (cases r2)
      case (Inl e)
      with assms a1 a2 Inr have "r = Inl e" "w' = w2" by (simp_all add: sync_target_def)
      with fatal_ok_trans [OF f1' fatal_ok_Inl [OF f2 [unfolded Inl]]] quiet_trans [OF q1 q2]
      show ?thesis by auto
    next
      case (Inr token)
      note f2' = f2 [unfolded Inr]
      let ?wm = "move_pages net token ms w2"
      from move_pages_step [of net w2 "()" token ms]
      have f3: "fatal_ok net w2 (Inr ()) ?wm" and q3: "quiet w2 ?wm" by simp_all
      obtain r4 w4 where a4: "import_pages net token xml ?wm = (r4, w4)"
        by (cases "import_pages net token xml ?wm")
      from import_pages_step [OF a4] have f4: "fatal_ok net ?wm r4 w4" and q4: "quiet ?wm w4"
        by simp_all
      have q: "quiet w w4"
        using quiet_trans [OF quiet_trans [OF quiet_trans [OF q1 q2] q3] q4] .
      show ?thesis
      proof (cases r4)
        case (Inl e)
        with assms a1 a2 a4 \<open>r1 = Inr u1\<close> \<open>r2 = Inr token\<close>
        have "r = Inl e" "w' = w4" by (simp_all add: sync_target_def)
        with fatal_ok_trans [OF f1' fatal_ok_trans [OF f2' fatal_ok_trans [OF f3 f4 [unfolded Inl]]]] q
        show ?thesis by auto
      next
        case (Inr u4)
        with assms a1 a2 a4 \<open>r1 = Inr u1\<close> \<open>r2 = Inr token\<close>
        have r: "r = Inr ()" and w': "w' = snd (writeFile t w4)"
          by (simp_all add: sync_target_def)
        obtain r5 where a5: "writeFile t w4 = (r5, w')" using w' by (cases "writeFile t w4") simp
        from writeFile_cases [OF a5] have s: "sent w' = sent w4"
          and l: "lastsync w' = (case t of None \<Rightarrow> lastsync w4 | Some ts \<Rightarrow> Some ts)"
          by (auto split: option.splits)
        from q have "lastsync w4 = lastsync w" by (simp add: quiet_def)
        with l have l': "lastsync w' = (case t of None \<Rightarrow> lastsync w | Some ts \<Rightarrow> Some ts)"
          by (simp split: option.splits)
        have "fatal_ok net w r w4"
          using fatal_ok_trans [OF f1' fatal_ok_trans [OF f2' fatal_ok_trans [OF f3 f4 [unfolded Inr]]]]
          by (rule fatal_ok_Inr)
        with fatal_ok_sent [OF s, of net w r] have "fatal_ok net w r w'" by simp
        with q s l' show ?thesis by auto
      qed
    qed
  qed
qed

lemma sync_pages_step:
  assumes "sync_pages net ex changes t w = (r, w')"
  shows "fatal_ok net w r w' \<and>
         (\<exists>v. quiet w v \<and> sent w' = sent v \<and>
              (r = Inr () \<longrightarrow> lastsync w' = (case t of None \<Rightarrow> lastsync w | Some ts \<Rightarrow> Some ts)))"
proof (cases "reduce_changes no_todo changes")
  case (Inl e)
  with assms have "r = Inl e" "w' = w" by (simp_all add: sync_pages_def)
  then show ?thesis
    by (auto simp: fatal_ok_refl intro!: exI [of _ w] quiet_refl)
next
  case (Inr st0)
  let ?st = "remove_excluded ex st0"
  show ?thesis
  proof (cases "pages ?st = [] \<and> fileIds ?st = []")
    case True
    with assms Inr have a: "writeFile t w = (r, w')" by (simp add: sync_pages_def Let_def)
    from writeFile_cases [OF a] have s: "sent w' = sent w"
      and l: "r = Inr () \<longrightarrow> lastsync w' = (case t of None \<Rightarrow> lastsync w | Some ts \<Rightarrow> Some ts)"
      by (auto split: option.splits)
    from fatal_ok_sent [OF s, of net w r] fatal_ok_refl have "fatal_ok net w r w'" by simp
    with s l quiet_refl show ?thesis by blast
  next
    case False
    obtain r4 w4 where a4: "export_pages net (pages ?st) w = (r4, w4)"
      by (cases "export_pages net (pages ?st) w")
    from export_pages_step [OF a4] have f4: "fatal_ok net w r4 w4" and q4: "quiet w w4"
      by simp_all
    show ?thesis
    proof (cases r4)
      case (Inl e)
      with assms Inr False a4 have "r = Inl e" "w' = w4"
        by (simp_all add: sync_pages_def Let_def)
      with fatal_ok_Inl [OF f4 [unfolded Inl]] q4 show ?thesis by auto
    next
      case (Inr xml)
      note f4' = f4 [unfolded Inr]
      obtain r5 w5 where a5: "fetch_file_urls net (fileIds ?st) w4 = (r5, w5)"
        by (cases "fetch_file_urls net (fileIds ?st) w4")
      from fetch_file_urls_step [OF a5] have f5: "fatal_ok net w4 r5 w5" and q5: "quiet w4 w5"
        by simp_all
      show ?thesis
      proof (cases r5)
        case (Inl e)
        with assms \<open>reduce_changes no_todo changes = Inr st0\<close> False a4 a5 \<open>r4 = Inr xml\<close>
        have "r = Inl e" "w' = w5"
          by (simp_all add: sync_pages_def Let_def)
        with fatal_ok_trans [OF f4' fatal_ok_Inl [OF f5 [unfolded Inl]]] quiet_trans [OF q4 q5]
        show ?thesis by auto
      next
        case (Inr u5)
        note f5' = f5 [unfolded Inr]
        from assms \<open>reduce_changes no_todo changes = Inr st0\<close> False a4 a5 \<open>r4 = Inr xml\<close> Inr
        have a6: "sync_target net (moves (pages ?st)) xml t w5 = (r, w')"
          by (simp add: sync_pages_def Let_def)
        from sync_target_step [OF a6] obtain v where f6: "fatal_ok net w5 r w'"
          and q6: "quiet w5 v" and s6: "sent w' = sent v"
          and l6: "r = Inr () \<longrightarrow> lastsync w' = (case t of None \<Rightarrow> lastsync w5 | Some ts \<Rightarrow> Some ts)"
          by blast
        have q: "quiet w v" using quiet_trans [OF quiet_trans [OF q4 q5] q6] .
        from quiet_trans [OF q4 q5] have "lastsync w5 = lastsync w" by (simp add: quiet_def)
        with l6 have l: "r = Inr () \<longrightarrow> lastsync w' = (case t of None \<Rightarrow> lastsync w | Some ts \<Rightarrow> Some ts)"
          by (simp split: option.splits)
        from fatal_ok_trans [OF f4' fatal_ok_trans [OF f5' f6]] q s6 l show ?thesis by blast
      qed
    qed
  qed
qed

lemma first_step:
  assumes "(if sourceCredentials cfg then log_in net Source (mockLogin cfg) w else (Inr (), w)) = (r, w')"
  shows "fatal_ok net w r w' \<and> quiet w w'"
proof (cases "sourceCredentials cfg")
  case True
  with assms log_in_step [of net Source "mockLogin cfg" w r w'] show ?thesis by simp
next
  case False
  with assms show ?thesis by (auto simp: fatal_ok_refl quiet_refl)
qed

lemma run_cases:
  assumes "run cfg net w = Some (r, w')"
  obtains (login) e where
      "(if sourceCredentials cfg then log_in net Source (mockLogin cfg) w else (Inr (), w)) = (Inl e, w')"
      "r = Inl e"
  | (excluded) u w1 e where
      "(if sourceCredentials cfg then log_in net Source (mockLogin cfg) w else (Inr (), w)) = (Inr u, w1)"
      "fetch_excluded net w1 = Some (Inl e, w')" "r = Inl e"
  | (changes) u w1 ex w2 e where
      "(if sourceCredentials cfg then log_in net Source (mockLogin cfg) w else (Inr (), w)) = (Inr u, w1)"
      "fetch_excluded net w1 = Some (Inr ex, w2)"
      "fetch_changes net w2 = Some (Inl e, w')" "r = Inl e"
  | (fetched) u w1 ex w2 changes t w3 where
      "(if sourceCredentials cfg then log_in net Source (mockLogin cfg) w else (Inr (), w)) = (Inr u, w1)"
      "fetch_excluded net w1 = Some (Inr ex, w2)"
      "fetch_changes net w2 = Some (Inr (changes, t), w3)"
      "sync_pages net ex changes t w3 = (r, w')"
proof -
  obtain r1 w1 where a1:
    "(if sourceCredentials cfg then log_in net Source (mockLogin cfg) w else (Inr (), w)) = (r1, w1)"
    by (cases "if sourceCredentials cfg then log_in net Source (mockLogin cfg) w else (Inr (), w)")
  show ?thesis
  proof (cases r1)
    case (Inl e)
    with a1 assms have "r = Inl e" "w' = w1" by (simp_all add: run_def)
    with a1 Inl show ?thesis by (intro login) simp_all
  next
    case (Inr u)
    note a1' = a1 [unfolded Inr]
    from assms a1' obtain y2 where b: "fetch_excluded net w1 = Some y2"
      by (auto simp: run_def split: option.splits)
    obtain r2 w2 where y2: "y2 = (r2, w2)" by (cases y2)
    show ?thesis
    proof (cases r2)
      case (Inl e)
      with assms a1' b y2 have "r = Inl e" "w' = w2" by (simp_all add: run_def)
      with a1' b y2 Inl show ?thesis by (intro excluded) simp_all
    next
      case (Inr ex)
      note b' = b [unfolded y2 Inr]
      from assms a1' b' obtain y3 where c: "fetch_changes net w2 = Some y3"
        by (auto simp: run_def split: option.splits)
      obtain r3 w3 where y3: "y3 = (r3, w3)" by (cases y3)
      show ?thesis
      proof (cases r3)
        case (Inl e)
        with assms a1' b' c y3 have "r = Inl e" "w' = w3" by (simp_all add: run_def)
        with a1' b' c y3 Inl show ?thesis by (intro changes) simp_all
      next
        case (Inr p)
        obtain changes t where p: "p = (changes, t)" by (cases p)
        note c' = c [unfolded y3 Inr p]
        from assms a1' b' c' have "sync_pages net ex changes t w3 = (r, w')"
          by (simp add: run_def)
        with a1' b' c' show ?thesis by (rule fetched)
      qed
    qed
  qed
qed

lemma run_fatal:
  assumes "run cfg net w = Some (r, w')"
  shows "fatal_ok net w r w'"
  using assms
proof (cases rule: run_cases)
  case (login e)
  from first_step [OF login(1)] login(2) show ?thesis by (auto intro: fatal_ok_Inl)
next
  case (excluded u w1 e)
  from first_step [OF excluded(1)] have f1: "fatal_ok net w (Inr u) w1" by simp
  note f2 = fetch_excluded_step [OF excluded(2), THEN conjunct1]
  from fatal_ok_trans [OF f1 fatal_ok_Inl [OF f2]] excluded(3) show ?thesis by simp
next
  case (changes u w1 ex w2 e)
  from first_step [OF changes(1)] have f1: "fatal_ok net w (Inr u) w1" by simp
  from fetch_excluded_step [OF changes(2)] have f2: "fatal_ok net w1 (Inr ex) w2" by simp
  note f3 = fetch_changes_fatal [OF changes(3)]
  from fatal_ok_trans [OF f1 fatal_ok_trans [OF f2 fatal_ok_Inl [OF f3]]] changes(4)
  show ?thesis by simp
next
  case (fetched u w1 ex w2 changes t w3)
  from first_step [OF fetched(1)] have f1: "fatal_ok net w (Inr u) w1" by simp
  from fetch_excluded_step [OF fetched(2)] have f2: "fatal_ok net w1 (Inr ex) w2" by simp
  from fetch_changes_fatal [OF fetched(3)] have f3: "fatal_ok net w2 (Inr (changes, t)) w3" .
  from sync_pages_step [OF fetched(4)] have f4: "fatal_ok net w3 r w'" by simp
  from fatal_ok_trans [OF f1 fatal_ok_trans [OF f2 fatal_ok_trans [OF f3 f4]]]
  show ?thesis .
qed

lemma quiet_new:
  assumes "quiet w w'"
  obtains new where "sent w' = sent w @ new" "list_all (\<lambda>rq. \<not> is_changes_request rq) new"
    "mock w' ''recentchanges'' = mock w ''recentchanges''" "lastsync w' = lastsync w"
proof -
  from assms obtain new where n: "sent w' = sent w @ new"
    unfolding quiet_def take_prefix_iff by blast
  with assms have "list_all (\<lambda>rq. \<not> is_changes_request rq) new" by (simp add: quiet_def)
  with n assms that show ?thesis by (simp add: quiet_def)
qed

lemma run_watermark:
  assumes "run cfg net w = Some (Inr (), w')" and "mock w ''recentchanges'' = None"
  shows "\<exists>pre post d q. sent w' = sent w @ pre @ [ListRecentChanges []] @ post \<and>
       list_all (\<lambda>rq. \<not> is_changes_request rq) (pre @ post) \<and>
       net (length (sent w) + length pre) = Data (JObject d) \<and>
       query d = Some q \<and> recentchanges q \<noteq> None \<and>
       lastsync w' = (case curtimestamp d of None \<Rightarrow> lastsync w | Some ts \<Rightarrow> Some ts)"
  using assms(1)
proof (cases rule: run_cases)
  case (fetched u w1 ex w2 changes t w3)
  from first_step [OF fetched(1)] have "quiet w w1" by simp
  then obtain n1 where 1: "sent w1 = sent w @ n1" "list_all (\<lambda>rq. \<not> is_changes_request rq) n1"
    "mock w1 ''recentchanges'' = mock w ''recentchanges''" "lastsync w1 = lastsync w"
    by (rule quiet_new)
  from fetch_excluded_step [OF fetched(2)] have "quiet w1 w2" by simp
  then obtain n2 where 2: "sent w2 = sent w1 @ n2" "list_all (\<lambda>rq. \<not> is_changes_request rq) n2"
    "mock w2 ''recentchanges'' = mock w1 ''recentchanges''" "lastsync w2 = lastsync w1"
    by (rule quiet_new)
  from 1 2 assms(2) have m2: "mock w2 ''recentchanges'' = None" by simp
  from fetch_changes_once [OF fetched(3) m2] obtain d q where
    3: "sent w3 = sent w2 @ [ListRecentChanges []]" "lastsync w3 = lastsync w2"
    "net (length (sent w2)) = Data (JObject d)" "t = curtimestamp d"
    and dq: "query d = Some q" "recentchanges q \<noteq> None"
    by auto
  from sync_pages_step [OF fetched(4)] obtain v where q: "quiet w3 v" and s: "sent w' = sent v"
    and l: "lastsync w' = (case t of None \<Rightarrow> lastsync w3 | Some ts \<Rightarrow> Some ts)"
    by blast
  from q obtain n4 where 4: "sent v = sent w3 @ n4" "list_all (\<lambda>rq. \<not> is_changes_request rq) n4"
    by (rule quiet_new)
  have "sent w' = sent w @ (n1 @ n2) @ [ListRecentChanges []] @ n4"
    using 1 2 3 4 s by simp
  moreover have "list_all (\<lambda>rq. \<not> is_changes_request rq) ((n1 @ n2) @ n4)"
    using 1 2 4 by simp
  moreover have "net (length (sent w) + length (n1 @ n2)) = Data (JObject d)"
    using 1 2 3 by (simp add: add.assoc)
  moreover have "lastsync w' = (case curtimestamp d of None \<Rightarrow> lastsync w | Some ts \<Rightarrow> Some ts)"
    using l 1 2 3 by (simp split: option.splits)
  ultimately show ?thesis using dq by blast
qed simp_all

lemmas run_defs = run_def sync_pages_def sync_target_def log_in_def apiLogin_def
  fetch_excluded_def fetch_changes_def apiQueryListAll_def query_pages_first api_def cached_def
  record_mock_def mock_label_def login_ok_def has_continue_def writeFile_def export_pages_def
  own_fields_def check_errors_def
  fetch_file_urls_def fetch_csrf_def import_pages_def fresh_def plain_def no_query_def

lemma example_changes:
  "reduce_changes no_todo [ev_move ''A'' ''B'' True, ev_move ''C'' ''D'' True] =
     Inr \<lparr>pages = [(u16 ''B'', \<lparr>oldTitle = Some (u16 ''A''), minor = True\<rparr>),
                    (u16 ''D'', \<lparr>oldTitle = Some (u16 ''C''), minor = True\<rparr>)], fileIds = []\<rparr>"
  by (simp add: eval_defs)

lemma example_todo:
  "remove_excluded {} \<lparr>pages = [(u16 ''B'', \<lparr>oldTitle = Some (u16 ''A''), minor = True\<rparr>),
                    (u16 ''D'', \<lparr>oldTitle = Some (u16 ''C''), minor = True\<rparr>)], fileIds = []\<rparr> =
   \<lparr>pages = [(u16 ''B'', \<lparr>oldTitle = Some (u16 ''A''), minor = True\<rparr>),
                    (u16 ''D'', \<lparr>oldTitle = Some (u16 ''C''), minor = True\<rparr>)], fileIds = []\<rparr>"
  "moves [(u16 ''B'', \<lparr>oldTitle = Some (u16 ''A''), minor = True\<rparr>),
          (u16 ''D'', \<lparr>oldTitle = Some (u16 ''C''), minor = True\<rparr>)] =
     [(u16 ''A'', u16 ''B''), (u16 ''C'', u16 ''D'')]"
  "export_titles [(u16 ''B'', \<lparr>oldTitle = Some (u16 ''A''), minor = True\<rparr>),
          (u16 ''D'', \<lparr>oldTitle = Some (u16 ''C''), minor = True\<rparr>)] = [u16 ''B'', u16 ''D'']"
  "fix_export [(u16 ''B'', \<lparr>oldTitle = Some (u16 ''A''), minor = True\<rparr>),
          (u16 ''D'', \<lparr>oldTitle = Some (u16 ''C''), minor = True\<rparr>)] (u16 ''<x/>'') = u16 ''<x/>''"
  "u16 ''<x/>'' \<noteq> []"
  by (simp_all add: eval_defs regex_defs replace_blocks.simps)

lemma example_run:
  "\<exists>m. run \<lparr>sourceCredentials = False, mockLogin = False\<rparr> example_net fresh =
     Some (Inr (), \<lparr>mock = m, sent = example_sent,
                    lastsync = Some (u16 ''2024-01-01T00:00:00Z'')\<rparr>)"
  by (simp add: run_defs example_net_def example_sent_def example_changes example_todo
      del: reduce_changes.simps)

lemma api_unlabelled:
  "mock (snd (api net req None a w)) = mock w"
  by (auto simp: api_def Let_def record_mock_def cached_def
      split: option.splits reply.splits sum.splits bool.splits)


lemma log_in_lastsync: "log_in net s m w = (r, w') \<Longrightarrow> lastsync w' = lastsync w"
  using log_in_step [of net s m w r w'] by (simp add: quiet_def)

lemma fetch_csrf_lastsync: "fetch_csrf net w = (r, w') \<Longrightarrow> lastsync w' = lastsync w"
  using fetch_csrf_step [of net w r w'] by (simp add: quiet_def)

lemma import_pages_lastsync:
  "import_pages net token xml w = (r, w') \<Longrightarrow> lastsync w' = lastsync w"
  using import_pages_step [of net token xml w r w'] by (simp add: quiet_def)

lemma move_pages_lastsync: "lastsync (move_pages net token ms w) = lastsync w"
  using move_pages_step [of net w "()" token ms] by (simp add: quiet_def)

lemma export_pages_lastsync: "export_pages net ps w = (r, w') \<Longrightarrow> lastsync w' = lastsync w"
  using export_pages_step [of net ps w r w'] by (simp add: quiet_def)

lemma fetch_file_urls_lastsync:
  "fetch_file_urls net fs w = (r, w') \<Longrightarrow> lastsync w' = lastsync w"
  using fetch_file_urls_step [of net fs w r w'] by (simp add: quiet_def)

lemma sync_target_failed:
  assumes "sync_target net ms xml t w = (Inl e, w')"
  shows "lastsync w' = lastsync w"
proof -
  obtain r1 w1 where a1: "log_in net Target (mock w '''' \<noteq> None) w = (r1, w1)"
    by (cases "log_in net Target (mock w '''' \<noteq> None) w")
  obtain r2 w2 where a2: "fetch_csrf net w1 = (r2, w2)" by (cases "fetch_csrf net w1")
  note l1 = log_in_lastsync [OF a1] and l2 = fetch_csrf_lastsync [OF a2]
  show ?thesis
  proof (cases r1)
    case (Inl e1)
    with assms a1 l1 show ?thesis by (simp add: sync_target_def)
  next
    case (Inr u1)
    show ?thesis
    proof (cases r2)
      case (Inl e2)
      with assms a1 a2 Inr l1 l2 show ?thesis by (simp add: sync_target_def)
    next
      case (Inr token)
      obtain r4 w4 where a4: "import_pages net token xml (move_pages net token ms w2) = (r4, w4)"
        by (cases "import_pages net token xml (move_pages net token ms w2)")
      from import_pages_lastsync [OF a4] l1 l2 have l4: "lastsync w4 = lastsync w"
        by (simp add: move_pages_lastsync)
      from assms a1 a2 a4 \<open>r1 = Inr u1\<close> Inr l4 show ?thesis
        by (cases r4) (simp_all add: sync_target_def)
    qed
  qed
qed

lemma sync_pages_failed:
  assumes "sync_pages net ex changes t w = (Inl e, w')"
  shows "lastsync w' = lastsync w"
proof (cases "reduce_changes no_todo changes")
  case (Inl e0)
  with assms show ?thesis by (simp add: sync_pages_def)
next
  case (Inr st0)
  let ?st = "remove_excluded ex st0"
  show ?thesis
  proof (cases "pages ?st = [] \<and> fileIds ?st = []")
    case True
    with assms Inr have "writeFile t w = (Inl e, w')" by (simp add: sync_pages_def Let_def)
    then show ?thesis by (auto simp: writeFile_def split: option.splits)
  next
    case False
    obtain r4 w4 where a4: "export_pages net (pages ?st) w = (r4, w4)"
      by (cases "export_pages net (pages ?st) w")
    obtain r5 w5 where a5: "fetch_file_urls net (fileIds ?st) w4 = (r5, w5)"
      by (cases "fetch_file_urls net (fileIds ?st) w4")
    note l4 = export_pages_lastsync [OF a4] and l5 = fetch_file_urls_lastsync [OF a5]
    show ?thesis
    proof (cases r4)
      case (Inl e4)
      with assms Inr False a4 l4 show ?thesis by (simp add: sync_pages_def Let_def)
    next
      case (Inr xml)
      show ?thesis
      proof (cases r5)
        case (Inl e5)
        with assms \<open>reduce_changes no_todo changes = Inr st0\<close> False a4 a5 \<open>r4 = Inr xml\<close> l4 l5
        show ?thesis by (simp add: sync_pages_def Let_def)
      next
        case (Inr u5)
        with assms \<open>reduce_changes no_todo changes = Inr st0\<close> False a4 a5 \<open>r4 = Inr xml\<close>
        have "sync_target net (moves (pages ?st)) xml t w5 = (Inl e, w')"
          by (simp add: sync_pages_def Let_def)
        from sync_target_failed [OF this] l4 l5 show ?thesis by simp
      qed
    qed
  qed
qed

lemma query_pages_lastsync:
  assumes "query_pages net req label data results w = Some y"
  shows "lastsync (snd y) = lastsync w"
proof (induction net req label data results w y rule: query_pages.raw_induct)
  case (1 qp net req label data results w y)
  obtain r1 w1 where a1: "api net (req (continue_params data)) label None w = (r1, w1)"
    by (cases "api net (req (continue_params data)) label None w")
  from api_lastsync [of net "req (continue_params data)" label None w] a1
  have l1: "lastsync w1 = lastsync w" by simp
  show ?case
  proof (cases r1)
    case (Inl e)
    with "1.hyps" a1 l1 show ?thesis by auto
  next
    case (Inr d)
    from "1.hyps" a1 Inr consider (stop) "snd y = w1"
      | (go) res where "qp net req label (Some d) (Some res) w1 = Some y"
      by (auto simp: Let_def split: sum.splits option.splits if_splits)
    then show ?thesis
    proof cases
      case stop
      with l1 show ?thesis by simp
    next
      case (go res)
      from "1.IH" [OF this] l1 show ?thesis by simp
    qed
  qed
qed (fact assms)

lemma fetch_changes_lastsync:
  assumes "fetch_changes net w = Some (r, w')"
  shows "lastsync w' = lastsync w"
proof -
  from assms obtain r1 where
    a: "apiQueryListAll net ListRecentChanges (Some ''recentchanges'') w = Some (r1, w')"
    by (auto simp: fetch_changes_def split: option.splits sum.splits)
  then obtain y where y: "query_pages net ListRecentChanges (Some ''recentchanges'') None None w = Some y"
    and w': "lastsync w' = lastsync (snd y)"
    by (auto simp: apiQueryListAll_def record_mock_def split: option.splits sum.splits body.splits)
  from query_pages_lastsync [OF y] w' show ?thesis by simp
qed

lemma run_failed:
  assumes "run cfg net w = Some (Inl e, w')"
  shows "lastsync w' = lastsync w"
  using assms
proof (cases rule: run_cases)
  case (login e1)
  from first_step [OF login(1)] show ?thesis by (simp add: quiet_def)
next
  case (excluded u w1 e1)
  from first_step [OF excluded(1)] fetch_excluded_step [OF excluded(2)] show ?thesis
    by (simp add: quiet_def)
next
  case (changes u w1 ex w2 e1)
  from first_step [OF changes(1)] fetch_excluded_step [OF changes(2)]
    fetch_changes_lastsync [OF changes(3)] show ?thesis
    by (simp add: quiet_def)
next
  case (fetched u w1 ex w2 changes t w3)
  from first_step [OF fetched(1)] fetch_excluded_step [OF fetched(2)]
    fetch_changes_lastsync [OF fetched(3)] sync_pages_failed [OF fetched(4)] show ?thesis
    by (simp add: quiet_def)
qed

text \<open>
  A first page that is an object without \<^verbatim>\<open>query\<close> ends the loop and comes back as it
  is; the two callers then destructure the absent \<^verbatim>\<open>query\<close> and throw. A first page
  that is a primitive ends the loop too, and the assignment after the loop throws.
\<close>

lemma apiQueryListAll_no_query:
  assumes "api net (req []) label None w = (Inr (JObject d), w1)" and "query d = None"
  shows "apiQueryListAll net req label w =
           Some (Inr (JObject d), record_mock label (JObject d) w1)"
proof -
  have "query_pages net req label None None w = Some (Inr (JObject d, None), w1)"
    using assms by (simp add: query_pages_first own_fields_def)
  moreover have "d\<lparr>query := None\<rparr> = d" using assms(2) by simp
  ultimately show ?thesis by (simp add: apiQueryListAll_def)
qed

lemma apiQueryListAll_primitive:
  assumes "api net (req []) label None w = (Inr (JPrimitive t), w1)"
  shows "apiQueryListAll net req label w = Some (Inl TypeError, w1)"
proof -
  have "query_pages net req label None None w = Some (Inr (JPrimitive t, None), w1)"
    using assms by (simp add: query_pages_first own_fields_def plain_def)
  then show ?thesis by (simp add: apiQueryListAll_def)
qed

lemma fetch_excluded_no_query:
  assumes "api net (ListCategoryMembers []) (Some ''excludedpages'') None w = (Inr (JObject d), w1)"
    and "query d = None"
  shows "fetch_excluded net w =
           Some (Inl TypeError, record_mock (Some ''excludedpages'') (JObject d) w1)"
  using apiQueryListAll_no_query [where req = ListCategoryMembers, OF assms] assms(2)
  by (simp add: fetch_excluded_def own_fields_def)

lemma fetch_changes_no_query:
  assumes "api net (ListRecentChanges []) (Some ''recentchanges'') None w = (Inr (JObject d), w1)"
    and "query d = None"
  shows "fetch_changes net w =
           Some (Inl TypeError, record_mock (Some ''recentchanges'') (JObject d) w1)"
  using apiQueryListAll_no_query [where req = ListRecentChanges, OF assms] assms(2)
  by (simp add: fetch_changes_def own_fields_def)

section \<open>The claims about a run\<close>

text \<open>
  Claim C9, as stated: when the first page of a list query has no \<^verbatim>\<open>query\<close> key,
  \<^verbatim>\<open>apiQueryListAll\<close> returns normally, with empty results, and raises no error. A
  first page with an empty body, which \<^verbatim>\<open>api\<close> hands over as the empty string, has no
  \<^verbatim>\<open>query\<close> key: the loop ends at once, and the assignment \<^verbatim>\<open>data.query = results\<close>
  to the string throws a TypeError. A first page that is the object without fields comes
  back as that object, \<^verbatim>\<open>query\<close> undefined: it holds no list, and the read of the change
  list from it throws a TypeError.
\<close>

theorem C9_counterexample:
  "apiQueryListAll blank_net ListRecentChanges (Some ''recentchanges'') fresh =
     Some (Inl TypeError,
           fresh\<lparr>mock := (mock fresh)(''recentchanges'' \<mapsto> JPrimitive []),
                 sent := [ListRecentChanges []]\<rparr>) \<and>
   apiQueryListAll plain_net ListRecentChanges (Some ''recentchanges'') fresh =
     Some (Inr (JObject plain),
           fresh\<lparr>mock := (mock fresh)(''recentchanges'' \<mapsto> JObject plain),
                 sent := [ListRecentChanges []]\<rparr>) \<and>
   query plain = None \<and>
   fetch_changes plain_net fresh =
     Some (Inl TypeError,
           fresh\<lparr>mock := (mock fresh)(''recentchanges'' \<mapsto> JObject plain),
                 sent := [ListRecentChanges []]\<rparr>)"
  by (simp add: apiQueryListAll_def query_pages_first api_def cached_def check_errors_def
      record_mock_def own_fields_def fetch_changes_def blank_net_def plain_net_def fresh_def
      plain_def)

text \<open>
  Claim C9, amended: when the first page that \<^verbatim>\<open>api\<close> returns for a list query is an
  object without a \<^verbatim>\<open>query\<close> key, \<^verbatim>\<open>apiQueryListAll\<close> returns normally and sends
  nothing after the one request for that page. What it returns is that page as it came,
  its \<^verbatim>\<open>query\<close> still undefined: no list, rather than a list without entries.
\<close>

theorem C9_no_query_ends_fetch:
  assumes "api net (req []) label None w = (Inr (JObject d), w1)" and "query d = None"
  shows "apiQueryListAll net req label w =
           Some (Inr (JObject d), record_mock label (JObject d) w1) \<and>
         sent (record_mock label (JObject d) w1) = sent w1 \<and>
         length (sent w1) \<le> Suc (length (sent w))"
proof -
  have "sent (record_mock label (JObject d) w1) = sent w1"
    by (simp add: record_mock_def split: option.splits)
  moreover have "length (sent w1) \<le> Suc (length (sent w))"
    using api_sent [of net "req []" label None w] assms(1) by (simp split: if_splits)
  ultimately show ?thesis
    using apiQueryListAll_no_query [where req = req, OF assms] by simp
qed

theorem C9_witness:
  "api plain_net (ListCategoryMembers []) (Some ''excludedpages'') None fresh =
     (Inr (JObject plain),
      record_mock (Some ''excludedpages'') (JObject plain) (fresh\<lparr>sent := [ListCategoryMembers []]\<rparr>)) \<and>
   query plain = None \<and>
   apiQueryListAll plain_net ListCategoryMembers (Some ''excludedpages'') fresh =
     Some (Inr (JObject plain), record_mock (Some ''excludedpages'') (JObject plain)
       (record_mock (Some ''excludedpages'') (JObject plain)
          (fresh\<lparr>sent := [ListCategoryMembers []]\<rparr>))) \<and>
   sent (record_mock (Some ''excludedpages'') (JObject plain)
       (record_mock (Some ''excludedpages'') (JObject plain)
          (fresh\<lparr>sent := [ListCategoryMembers []]\<rparr>))) =
     [ListCategoryMembers []]"
proof -
  have h1: "api plain_net (ListCategoryMembers []) (Some ''excludedpages'') None fresh =
     (Inr (JObject plain),
      record_mock (Some ''excludedpages'') (JObject plain) (fresh\<lparr>sent := [ListCategoryMembers []]\<rparr>))"
    by (simp add: api_def cached_def check_errors_def plain_net_def fresh_def plain_def)
  have h2: "query plain = None" by (simp add: plain_def)
  from C9_no_query_ends_fetch [of plain_net ListCategoryMembers, OF h1 h2] h1 h2
  show ?thesis by (simp add: record_mock_def)
qed


text \<open>
  Claim C8: after the login to the target and the token, every pair of the move list is
  sent as a move request and then, when there is XML, the import, whatever the replies to
  the moves are; the result is the result of the import. By contrast an API error (a
  non-empty \<^verbatim>\<open>errors\<close> array, or a login result other than \<^verbatim>\<open>Success\<close>) in the reply
  to any request that is not a move, so to a login, a token or list query, the export or
  the import, ends the run with that \<^verbatim>\<open>APIError\<close>: the request is the last one sent
  and \<^verbatim>\<open>~lastsync\<close> is not written.
\<close>

theorem C8_move_errors_tolerated:
  "(mock w '''' = None \<and> log_in net Target False w = (Inr u, w1) \<and>
    fetch_csrf net w1 = (Inr token, w2)
    \<longrightarrow> sent (snd (sync_target net ms xml t w)) =
          sent w2 @ map (\<lambda>(f, t). Move f t token) ms @
            (if xml = [] then [] else [Import xml token]) \<and>
        fst (sync_target net ms xml t w) =
          fst (import_pages net token xml (move_pages net token ms w2))) \<and>
   (run cfg net' w0 = Some (r, w') \<and> length (sent w0) \<le> n \<and> n < length (sent w') \<and>
    \<not> is_move_request (sent w' ! n) \<and> api_error (sent w' ! n) (net' n)
    \<longrightarrow> r = Inl APIError \<and> Suc n = length (sent w') \<and> lastsync w' = lastsync w0)"
proof (intro conjI impI)
  assume h: "mock w '''' = None \<and> log_in net Target False w = (Inr u, w1) \<and>
    fetch_csrf net w1 = (Inr token, w2)"
  then have m: "mock w '''' = None" and a1: "log_in net Target False w = (Inr u, w1)"
    and a2: "fetch_csrf net w1 = (Inr token, w2)" by simp_all
  have "mock w1 = mock w"
  proof -
    from a1 obtain d where "apiLogin net Target False w = (Inr d, w1)"
      by (auto simp: log_in_def split: prod.splits sum.splits option.splits)
    then show ?thesis
      using api_unlabelled [of net _ _ w]
      by (auto simp: apiLogin_def mock_label_def split: prod.splits sum.splits option.splits)
        (metis api_unlabelled snd_conv)
  qed
  moreover have "mock w2 = mock w1"
    using a2 api_unlabelled [of net GetCsrfToken None w1]
    by (auto simp: fetch_csrf_def split: prod.splits sum.splits option.splits)
  ultimately have m2: "mock w2 '''' = None" using m by simp
  let ?wm = "move_pages net token ms w2"
  from move_pages_sent [OF m2, of net token ms]
  have sm: "sent ?wm = sent w2 @ map (\<lambda>(f, t). Move f t token) ms" and mm: "mock ?wm '''' = None"
    using m2 by simp_all
  from import_pages_sent [OF mm, of net token xml] sm
  have si: "sent (snd (import_pages net token xml ?wm)) =
      sent w2 @ map (\<lambda>(f, t). Move f t token) ms @ (if xml = [] then [] else [Import xml token])"
    by simp
  have st: "sync_target net ms xml t w =
      (case import_pages net token xml ?wm of
         (Inl e, w3) \<Rightarrow> (Inl e, w3)
       | (Inr _, w3) \<Rightarrow> (Inr (), snd (writeFile t w3)))"
    using m a1 a2 by (simp add: sync_target_def)
  show "sent (snd (sync_target net ms xml t w)) =
      sent w2 @ map (\<lambda>(f, t). Move f t token) ms @ (if xml = [] then [] else [Import xml token])"
    using si unfolding st
    by (cases "import_pages net token xml ?wm") (auto simp: writeFile_sent split: sum.splits)
  show "fst (sync_target net ms xml t w) = fst (import_pages net token xml ?wm)"
    unfolding st
    by (cases "import_pages net token xml ?wm") (auto split: sum.splits)
next
  assume h: "run cfg net' w0 = Some (r, w') \<and> length (sent w0) \<le> n \<and> n < length (sent w') \<and>
    \<not> is_move_request (sent w' ! n) \<and> api_error (sent w' ! n) (net' n)"
  then have run: "run cfg net' w0 = Some (r, w')" by simp
  then have "fatal_ok net' w0 r w'" by (rule run_fatal)
  with h show r: "r = Inl APIError" and "Suc n = length (sent w')"
    unfolding fatal_ok_def by blast+
  from run r show "lastsync w' = lastsync w0" by (simp add: run_failed)
qed

theorem C8_witness:
  "log_in target_net Target False fresh =
     (Inr (), fresh\<lparr>sent := [GetLoginToken Target, PostLogin Target (Some (u16 ''l''))]\<rparr>) \<and>
   fetch_csrf target_net (fresh\<lparr>sent := [GetLoginToken Target, PostLogin Target (Some (u16 ''l''))]\<rparr>) =
     (Inr (Some (u16 ''c'')),
      fresh\<lparr>sent := [GetLoginToken Target, PostLogin Target (Some (u16 ''l'')), GetCsrfToken]\<rparr>) \<and>
   api_error (Move (u16 ''A'') (u16 ''B'') (Some (u16 ''c''))) (target_net 3) \<and>
   sent (snd (sync_target target_net [(u16 ''A'', u16 ''B''), (u16 ''C'', u16 ''D'')] (u16 ''<x/>'')
               (Some (u16 ''t'')) fresh)) =
     [GetLoginToken Target, PostLogin Target (Some (u16 ''l'')), GetCsrfToken,
      Move (u16 ''A'') (u16 ''B'') (Some (u16 ''c'')),
      Move (u16 ''C'') (u16 ''D'') (Some (u16 ''c'')),
      Import (u16 ''<x/>'') (Some (u16 ''c''))] \<and>
   fst (sync_target target_net [(u16 ''A'', u16 ''B''), (u16 ''C'', u16 ''D'')] (u16 ''<x/>'')
               (Some (u16 ''t'')) fresh) = Inr () \<and>
   api_error (Import (u16 ''<x/>'') (Some (u16 ''c''))) (failing_net 8) \<and>
   fst (the (run \<lparr>sourceCredentials = False, mockLogin = False\<rparr> failing_net fresh)) =
     Inl APIError \<and>
   sent (snd (the (run \<lparr>sourceCredentials = False, mockLogin = False\<rparr> failing_net fresh))) =
     example_sent \<and>
   Suc 8 = length example_sent \<and>
   lastsync (snd (the (run \<lparr>sourceCredentials = False, mockLogin = False\<rparr> failing_net fresh))) =
     lastsync fresh"
proof -
  let ?w1 = "fresh\<lparr>sent := [GetLoginToken Target, PostLogin Target (Some (u16 ''l''))]\<rparr>"
  let ?w2 = "fresh\<lparr>sent := [GetLoginToken Target, PostLogin Target (Some (u16 ''l'')), GetCsrfToken]\<rparr>"
  let ?ms = "[(u16 ''A'', u16 ''B''), (u16 ''C'', u16 ''D'')]"
  let ?cfg = "\<lparr>sourceCredentials = False, mockLogin = False\<rparr>"
  have m: "mock fresh '''' = None" by (simp add: fresh_def)
  have a1: "log_in target_net Target False fresh = (Inr (), ?w1)"
    by (simp add: run_defs target_net_def example_net_def)
  have a2: "fetch_csrf target_net ?w1 = (Inr (Some (u16 ''c'')), ?w2)"
    by (simp add: run_defs target_net_def example_net_def)
  have e1: "api_error (Move (u16 ''A'') (u16 ''B'') (Some (u16 ''c''))) (target_net 3)"
    by (simp add: api_error_def target_net_def example_net_def plain_def)
  have i: "fst (import_pages target_net (Some (u16 ''c'')) (u16 ''<x/>'')
             (move_pages target_net (Some (u16 ''c'')) ?ms ?w2)) = Inr ()"
    by (simp add: run_defs target_net_def example_net_def u16_def)
  obtain m' where r: "run ?cfg failing_net fresh =
      Some (Inl APIError, \<lparr>mock = m', sent = example_sent, lastsync = None\<rparr>)"
  proof -
    have "\<exists>m'. run ?cfg failing_net fresh =
      Some (Inl APIError, \<lparr>mock = m', sent = example_sent, lastsync = None\<rparr>)"
      by (simp add: run_defs failing_net_def example_net_def example_sent_def example_changes
          example_todo del: reduce_changes.simps)
    then show ?thesis using that by blast
  qed
  have n: "length (sent fresh) \<le> 8" "8 < length example_sent"
    "\<not> is_move_request (example_sent ! 8)" "example_sent ! 8 = Import (u16 ''<x/>'') (Some (u16 ''c''))"
    by (simp_all add: fresh_def example_sent_def is_move_request_def)
  have e2: "api_error (Import (u16 ''<x/>'') (Some (u16 ''c''))) (failing_net 8)"
    by (simp add: api_error_def failing_net_def plain_def)
  note T = C8_move_errors_tolerated [of fresh target_net "()" ?w1 "Some (u16 ''c'')" ?w2 ?ms
      "u16 ''<x/>''" "Some (u16 ''t'')" ?cfg failing_net fresh "Inl APIError"
      "\<lparr>mock = m', sent = example_sent, lastsync = None\<rparr>" 8]
  from T [THEN conjunct1] m a1 a2
  have c: "sent (snd (sync_target target_net ?ms (u16 ''<x/>'') (Some (u16 ''t'')) fresh)) =
      sent ?w2 @ map (\<lambda>(f, t). Move f t (Some (u16 ''c''))) ?ms @
        (if u16 ''<x/>'' = [] then [] else [Import (u16 ''<x/>'') (Some (u16 ''c''))]) \<and>
    fst (sync_target target_net ?ms (u16 ''<x/>'') (Some (u16 ''t'')) fresh) =
      fst (import_pages target_net (Some (u16 ''c'')) (u16 ''<x/>'')
             (move_pages target_net (Some (u16 ''c'')) ?ms ?w2))"
    by blast
  have x: "u16 ''<x/>'' \<noteq> []" by (simp add: u16_def)
  from c x have c1: "sent (snd (sync_target target_net ?ms (u16 ''<x/>'') (Some (u16 ''t'')) fresh)) =
     [GetLoginToken Target, PostLogin Target (Some (u16 ''l'')), GetCsrfToken,
      Move (u16 ''A'') (u16 ''B'') (Some (u16 ''c'')),
      Move (u16 ''C'') (u16 ''D'') (Some (u16 ''c'')),
      Import (u16 ''<x/>'') (Some (u16 ''c''))]"
    by (simp add: fresh_def)
  from c i have c2: "fst (sync_target target_net ?ms (u16 ''<x/>'') (Some (u16 ''t'')) fresh) = Inr ()"
    by simp
  from n e2 have b: "length (sent fresh) \<le> 8 \<and>
      8 < length (sent \<lparr>mock = m', sent = example_sent, lastsync = None\<rparr>) \<and>
      \<not> is_move_request (sent \<lparr>mock = m', sent = example_sent, lastsync = None\<rparr> ! 8) \<and>
      api_error (sent \<lparr>mock = m', sent = example_sent, lastsync = None\<rparr> ! 8) (failing_net 8)"
    by simp
  from T [THEN conjunct2] r b have l: "Suc 8 = length example_sent"
    "lastsync \<lparr>mock = m', sent = example_sent, lastsync = None\<rparr> = lastsync fresh"
    by simp_all
  from r l have d: "fst (the (run ?cfg failing_net fresh)) = Inl APIError"
    "sent (snd (the (run ?cfg failing_net fresh))) = example_sent"
    "lastsync (snd (the (run ?cfg failing_net fresh))) = lastsync fresh"
    by simp_all
  from a1 a2 e1 c1 c2 e2 d l show ?thesis by blast
qed


text \<open>
  Claim C6: a run that ends well, through the exit when there is nothing to do or through
  the import, has sent exactly one request for the change log, and what it has written to
  \<^verbatim>\<open>~lastsync\<close> is the \<^verbatim>\<open>curtimestamp\<close> of the reply to that request. The run starts
  without a recorded change log, and the server puts \<^verbatim>\<open>curtimestamp\<close> into a reply that
  carries a change list, as the request asks.
\<close>

theorem C6_watermark_is_server_time:
  assumes "run cfg net w = Some (Inr (), w')"
    and "mock w ''recentchanges'' = None"
    and "\<forall>n d q. net n = Data (JObject d) \<and> query d = Some q \<and> recentchanges q \<noteq> None
           \<longrightarrow> curtimestamp d \<noteq> None"
  shows "\<exists>pre post d ts. sent w' = sent w @ pre @ [ListRecentChanges []] @ post \<and>
       list_all (\<lambda>rq. \<not> is_changes_request rq) (pre @ post) \<and>
       net (length (sent w) + length pre) = Data (JObject d) \<and>
       curtimestamp d = Some ts \<and> lastsync w' = Some ts"
proof -
  from run_watermark [OF assms(1,2)] obtain pre post d q where
    s: "sent w' = sent w @ pre @ [ListRecentChanges []] @ post"
    "list_all (\<lambda>rq. \<not> is_changes_request rq) (pre @ post)"
    and n: "net (length (sent w) + length pre) = Data (JObject d)"
    and q: "query d = Some q" "recentchanges q \<noteq> None"
    and l: "lastsync w' = (case curtimestamp d of None \<Rightarrow> lastsync w | Some ts \<Rightarrow> Some ts)"
    by blast
  from assms(3) n q obtain ts where ts: "curtimestamp d = Some ts" by blast
  with l have "lastsync w' = Some ts" by simp
  with s n ts show ?thesis by blast
qed

theorem C6_witness:
  "(\<exists>m. run \<lparr>sourceCredentials = False, mockLogin = False\<rparr> example_net fresh =
     Some (Inr (), \<lparr>mock = m, sent = example_sent,
                    lastsync = Some (u16 ''2024-01-01T00:00:00Z'')\<rparr>)) \<and>
   mock fresh ''recentchanges'' = None \<and>
   example_net 1 = Data (JObject (plain\<lparr>query := Some (no_query\<lparr>recentchanges :=
               Some [ev_move ''A'' ''B'' True, ev_move ''C'' ''D'' True]\<rparr>),
             curtimestamp := Some (u16 ''2024-01-01T00:00:00Z'')\<rparr>)) \<and>
   (\<exists>pre post d ts. example_sent = sent fresh @ pre @ [ListRecentChanges []] @ post \<and>
       list_all (\<lambda>rq. \<not> is_changes_request rq) (pre @ post) \<and>
       example_net (length (sent fresh) + length pre) = Data (JObject d) \<and>
       curtimestamp d = Some ts \<and> Some (u16 ''2024-01-01T00:00:00Z'') = Some ts) \<and>
   (\<exists>m. run \<lparr>sourceCredentials = False, mockLogin = False\<rparr> idle_net fresh =
     Some (Inr (), \<lparr>mock = m, sent = [ListCategoryMembers [], ListRecentChanges []],
                    lastsync = Some (u16 ''2024-01-02T00:00:00Z'')\<rparr>)) \<and>
   (\<exists>pre post d ts.
       [ListCategoryMembers [], ListRecentChanges []] =
         sent fresh @ pre @ [ListRecentChanges []] @ post \<and>
       list_all (\<lambda>rq. \<not> is_changes_request rq) (pre @ post) \<and>
       idle_net (length (sent fresh) + length pre) = Data (JObject d) \<and>
       curtimestamp d = Some ts \<and> Some (u16 ''2024-01-02T00:00:00Z'') = Some ts)"
proof -
  let ?cfg = "\<lparr>sourceCredentials = False, mockLogin = False\<rparr>"
  from example_run obtain m where r: "run ?cfg example_net fresh =
     Some (Inr (), \<lparr>mock = m, sent = example_sent,
                    lastsync = Some (u16 ''2024-01-01T00:00:00Z'')\<rparr>)"
    by blast
  have h2: "mock fresh ''recentchanges'' = None" by (simp add: fresh_def)
  have h3: "\<forall>n d q. example_net n = Data (JObject d) \<and> query d = Some q \<and> recentchanges q \<noteq> None
           \<longrightarrow> curtimestamp d \<noteq> None"
    by (auto simp: example_net_def plain_def no_query_def split: if_splits)
  have e1: "example_net 1 = Data (JObject (plain\<lparr>query := Some (no_query\<lparr>recentchanges :=
               Some [ev_move ''A'' ''B'' True, ev_move ''C'' ''D'' True]\<rparr>),
             curtimestamp := Some (u16 ''2024-01-01T00:00:00Z'')\<rparr>))"
    by (simp add: example_net_def)
  have "\<exists>m. run ?cfg idle_net fresh =
     Some (Inr (), \<lparr>mock = m, sent = [ListCategoryMembers [], ListRecentChanges []],
                    lastsync = Some (u16 ''2024-01-02T00:00:00Z'')\<rparr>)"
    by (simp add: run_defs idle_net_def remove_excluded_def no_todo_def)
  then obtain m2 where r2: "run ?cfg idle_net fresh =
     Some (Inr (), \<lparr>mock = m2, sent = [ListCategoryMembers [], ListRecentChanges []],
                    lastsync = Some (u16 ''2024-01-02T00:00:00Z'')\<rparr>)"
    by blast
  have h4: "\<forall>n d q. idle_net n = Data (JObject d) \<and> query d = Some q \<and> recentchanges q \<noteq> None
           \<longrightarrow> curtimestamp d \<noteq> None"
    by (auto simp: idle_net_def plain_def no_query_def split: if_splits)
  from C6_watermark_is_server_time [OF r h2 h3] C6_watermark_is_server_time [OF r2 h2 h4]
    r r2 h2 e1
  show ?thesis by auto
qed

end
